theory Spec2Isabelle
  imports Complex_Main
begin

unbundle bit_operations_syntax

section \<open>Python values used by chnroutes\<close>

text \<open>
  The script is Python 3. Its integers are unbounded and are modelled by \<open>int\<close>; its
  strings are modelled by \<open>string\<close>, so the model covers texts whose code points are
  below 256 (the registry document is ASCII). Every exception the modelled code can raise
  is a value of \<open>py_error\<close>, and a computation that may raise returns
  \<open>py_error + 'a\<close>.
\<close>

datatype py_error = ValueError | IndexError | ZeroDivisionError | NameError | AttributeError

definition is_digit :: "char \<Rightarrow> bool" where
  "is_digit c = (c \<in> set ''0123456789'')"

definition digit_val :: "char \<Rightarrow> int" where
  "digit_val c = int (of_char c) - 48"

definition is_hexdigit :: "char \<Rightarrow> bool" where
  "is_hexdigit c = (c \<in> set ''0123456789abcdefABCDEF'')"

definition hexdigit_val :: "char \<Rightarrow> int" where
  "hexdigit_val c =
     (let n = int (of_char c)
      in if n < 58 then n - 48 else if n < 71 then n - 55 else n - 87)"

text \<open>\<open>str.lower\<close> on one character with a code point below 256.\<close>

definition py_lower_char :: "char \<Rightarrow> char" where
  "py_lower_char c =
     (let n = (of_char c :: nat)
      in if (65 \<le> n \<and> n \<le> 90) \<or> (192 \<le> n \<and> n \<le> 222 \<and> n \<noteq> 215)
         then char_of (n + 32) else c)"

definition py_lower :: "string \<Rightarrow> string" where
  "py_lower s = map py_lower_char s"

text \<open>
  \<open>int(s)\<close> and \<open>int(s, 16)\<close> on the strings that reach them in this script:
  a string of digits of the base is read big-endian, the empty string and a string with
  any other character raise ValueError. In base 10 a string of more than
  \<open>sys.int_max_str_digits\<close> digits (4300 by default, leading zeros counted) raises
  ValueError as well; base 16 has no such limit. (Python also accepts surrounding
  whitespace, a sign, a base prefix and underscores between digits; the filter and the
  slices of a hexadecimal string produce none of these forms.)
\<close>

definition int_max_str_digits :: nat where
  "int_max_str_digits = 4300"

definition py_int :: "string \<Rightarrow> py_error + int" where
  "py_int s =
     (if s \<noteq> [] \<and> list_all is_digit s \<and> length s \<le> int_max_str_digits
      then Inr (foldl (\<lambda>acc c. 10 * acc + digit_val c) 0 s)
      else Inl ValueError)"

definition py_int16 :: "string \<Rightarrow> py_error + int" where
  "py_int16 s =
     (if s \<noteq> [] \<and> list_all is_hexdigit s
      then Inr (foldl (\<lambda>acc c. 16 * acc + hexdigit_val c) 0 s)
      else Inl ValueError)"

text \<open>
  \<open>str(n)\<close> for an integer: decimal digits, with a minus sign when negative. (The
  limit on the number of digits applies here too; the script prints only integers read
  from two hexadecimal digits.)
\<close>

definition dec_char :: "int \<Rightarrow> char" where
  "dec_char d = ''0123456789'' ! nat d"

function dec_digits :: "int \<Rightarrow> string" where
  "dec_digits n = (if n < 10 then [dec_char n] else dec_digits (n div 10) @ [dec_char (n mod 10)])"
  by pat_completeness auto
termination
  by (relation "measure nat") auto

declare dec_digits.simps [simp del]

definition py_str :: "int \<Rightarrow> string" where
  "py_str n = (if n < 0 then CHR ''-'' # dec_digits (- n) else dec_digits n)"

text \<open>\<open>hex(n)\<close>: lower-case digits after \<open>0x\<close>, with a leading minus sign when negative.\<close>

definition hex_char :: "int \<Rightarrow> char" where
  "hex_char d = ''0123456789abcdef'' ! nat d"

function hex_digits :: "int \<Rightarrow> string" where
  "hex_digits n = (if n < 16 then [hex_char n] else hex_digits (n div 16) @ [hex_char (n mod 16)])"
  by pat_completeness auto
termination
  by (relation "measure nat") auto

declare hex_digits.simps [simp del]

definition py_hex :: "int \<Rightarrow> string" where
  "py_hex n = (if n < 0 then ''-0x'' @ hex_digits (- n) else ''0x'' @ hex_digits n)"

text \<open>
  \<open>s.zfill(w)\<close>: zeros are put on the left up to width \<open>w\<close>, after a leading sign
  if there is one; a string that is already wide enough is returned as it is.
\<close>

definition zfill :: "nat \<Rightarrow> string \<Rightarrow> string" where
  "zfill w s =
     (if w \<le> length s then s
      else (case s of
              c # cs \<Rightarrow>
                if c = CHR ''+'' \<or> c = CHR ''-''
                then c # replicate (w - length s) CHR ''0'' @ cs
                else replicate (w - length s) CHR ''0'' @ s
            | [] \<Rightarrow> replicate w CHR ''0''))"

text \<open>\<open>s[i:j]\<close> for \<open>0 \<le> i \<le> j\<close>: never raises, the slice is cut at the end of \<open>s\<close>.\<close>

definition slice :: "nat \<Rightarrow> nat \<Rightarrow> 'a list \<Rightarrow> 'a list" where
  "slice i j s = take (j - i) (drop i s)"

text \<open>\<open>s.split(sep)\<close> for a separator of one character: always at least one field.\<close>

fun py_split :: "char \<Rightarrow> string \<Rightarrow> string list" where
  "py_split sep [] = [[]]"
| "py_split sep (c # cs) =
     (if c = sep then [] # py_split sep cs
      else (case py_split sep cs of f # fs \<Rightarrow> (c # f) # fs | [] \<Rightarrow> [[c]]))"

text \<open>\<open>xs[i]\<close> for \<open>i \<ge> 0\<close>: IndexError out of range.\<close>

definition py_index :: "'a list \<Rightarrow> nat \<Rightarrow> py_error + 'a" where
  "py_index xs i = (if i < length xs then Inr (xs ! i) else Inl IndexError)"

text \<open>
  \<open>int(math.log(n, 2))\<close>: \<open>math.log\<close> raises ValueError for \<open>n \<le> 0\<close>; otherwise
  the quotient \<open>log(n) / log(2)\<close> of two double precision numbers is truncated to an
  integer. \<open>ilog2 n\<close> is the exact truncated logarithm, the largest \<open>k\<close> with
  \<open>2 ^ k \<le> n\<close>. For \<open>1 \<le> n \<le> 2 ^ 32\<close> the code computes it: at \<open>n = 2 ^ k\<close> the
  quotient is not below \<open>k\<close>, and at every other \<open>n\<close> the logarithm is farther than
  \<open>3 / 10 ^ 10\<close> from an integer, far more than the rounding error. Above \<open>2 ^ 32\<close>
  the rounded quotient can reach the next integer (it is 48.0 at \<open>n = 2 ^ 48 - 1\<close>), and
  the model does not compute it: \<open>big_log n\<close> stands for the value of
  \<open>int(math.log(n, 2))\<close> there, and every function that needs it takes it as a parameter.
\<close>

function ilog2 :: "int \<Rightarrow> int" where
  "ilog2 n = (if n < 2 then 0 else 1 + ilog2 (n div 2))"
  by pat_completeness auto
termination
  by (relation "measure nat") auto

declare ilog2.simps [simp del]

definition py_log2_trunc :: "(int \<Rightarrow> int) \<Rightarrow> int \<Rightarrow> py_error + int" where
  "py_log2_trunc big_log n =
     (if n \<le> 0 then Inl ValueError
      else if n \<le> 2 ^ 32 then Inr (ilog2 n)
      else Inr (big_log n))"

section \<open>The range extractor: the parsing stage of \<open>fetch_ip_data\<close>\<close>

subsection \<open>The filter\<close>

text \<open>
  The filter is the regular expression
  \<^verbatim>\<open>apnic\|cn\|ipv4\|[0-9\.]+\|[0-9]+\|[0-9]+\|a.*\<close> compiled with \<open>re.IGNORECASE\<close>.
  Each repeated class is followed by a literal \<open>|\<close> that is not in the class, and the
  final \<open>.*\<close> is followed by nothing, so a match at a position exists exactly when the
  greedy match without backtracking succeeds, and it is that match. The matcher below
  returns the text that follows the match. \<open>.\<close> matches every character but the
  newline.
\<close>

definition newline :: char where
  "newline = CHR 0x0A"

fun lit_ci :: "string \<Rightarrow> string \<Rightarrow> string option" where
  "lit_ci [] s = Some s"
| "lit_ci (p # ps) [] = None"
| "lit_ci (p # ps) (c # cs) =
     (if py_lower_char c = py_lower_char p then lit_ci ps cs else None)"

definition many1 :: "(char \<Rightarrow> bool) \<Rightarrow> string \<Rightarrow> string option" where
  "many1 P s = (if takeWhile P s = [] then None else Some (dropWhile P s))"

definition is_ip_char :: "char \<Rightarrow> bool" where
  "is_ip_char c = (is_digit c \<or> c = CHR ''.'')"

definition dot_star :: "string \<Rightarrow> string option" where
  "dot_star s = Some (dropWhile (\<lambda>c. c \<noteq> newline) s)"

definition cnregex_match :: "string \<Rightarrow> string option" where
  "cnregex_match s =
     Option.bind (lit_ci ''apnic|cn|ipv4|'' s) (\<lambda>s1.
     Option.bind (many1 is_ip_char s1) (\<lambda>s2.
     Option.bind (lit_ci ''|'' s2) (\<lambda>s3.
     Option.bind (many1 is_digit s3) (\<lambda>s4.
     Option.bind (lit_ci ''|'' s4) (\<lambda>s5.
     Option.bind (many1 is_digit s5) (\<lambda>s6.
     Option.bind (lit_ci ''|a'' s6) dot_star))))))"

lemma lit_ci_length: "lit_ci p s = Some r \<Longrightarrow> length r + length p = length s"
  by (induction p s rule: lit_ci.induct) (auto split: if_splits)

lemma many1_length: "many1 P s = Some r \<Longrightarrow> length r < length s"
proof -
  assume a: "many1 P s = Some r"
  then have "takeWhile P s \<noteq> []" and "r = dropWhile P s"
    by (auto simp: many1_def split: if_splits)
  moreover have "length (takeWhile P s) + length (dropWhile P s) = length s"
    by (metis length_append takeWhile_dropWhile_id)
  ultimately show ?thesis
    by (cases "takeWhile P s") auto
qed

lemma dot_star_length: "dot_star s = Some r \<Longrightarrow> length r \<le> length s"
  by (auto simp: dot_star_def length_dropWhile_le)

lemma cnregex_match_parts:
  assumes "cnregex_match s = Some r"
  obtains s1 s2 s3 s4 s5 s6 s7 where
    "lit_ci ''apnic|cn|ipv4|'' s = Some s1" "many1 is_ip_char s1 = Some s2"
    "lit_ci ''|'' s2 = Some s3" "many1 is_digit s3 = Some s4"
    "lit_ci ''|'' s4 = Some s5" "many1 is_digit s5 = Some s6"
    "lit_ci ''|a'' s6 = Some s7" "dot_star s7 = Some r"
  using assms unfolding cnregex_match_def bind_eq_Some_conv by blast

lemma cnregex_match_length:
  assumes "cnregex_match s = Some r"
  shows "length r < length s"
proof -
  from assms obtain s1 s2 s3 s4 s5 s6 s7 where
    h: "lit_ci ''apnic|cn|ipv4|'' s = Some s1" "many1 is_ip_char s1 = Some s2"
    "lit_ci ''|'' s2 = Some s3" "many1 is_digit s3 = Some s4"
    "lit_ci ''|'' s4 = Some s5" "many1 is_digit s5 = Some s6"
    "lit_ci ''|a'' s6 = Some s7" "dot_star s7 = Some r"
    by (rule cnregex_match_parts)
  have "length s1 \<le> length s" using lit_ci_length[OF h(1)] by linarith
  moreover have "length s2 < length s1" by (rule many1_length[OF h(2)])
  moreover have "length s3 \<le> length s2" using lit_ci_length[OF h(3)] by linarith
  moreover have "length s4 < length s3" by (rule many1_length[OF h(4)])
  moreover have "length s5 \<le> length s4" using lit_ci_length[OF h(5)] by linarith
  moreover have "length s6 < length s5" by (rule many1_length[OF h(6)])
  moreover have "length s7 \<le> length s6" using lit_ci_length[OF h(7)] by linarith
  moreover have "length r \<le> length s7" by (rule dot_star_length[OF h(8)])
  ultimately show ?thesis by linarith
qed

text \<open>
  \<open>cnregex.findall(data)\<close>: the text is scanned from the left; at a position where the
  expression matches, the matched text is collected and the scan goes on after it; at any
  other position the scan moves one character on.
\<close>

function findall :: "string \<Rightarrow> string list" where
  "findall [] = []"
| "findall (c # cs) =
     (case cnregex_match (c # cs) of
        None \<Rightarrow> findall cs
      | Some r \<Rightarrow> take (length (c # cs) - length r) (c # cs) # findall r)"
  by pat_completeness auto
termination
proof (relation "measure length")
  show "wf (measure length)" by simp
next
  fix c cs show "(cs, c # cs) \<in> measure length" by simp
next
  fix c cs r assume "cnregex_match (c # cs) = Some r"
  then show "(r, c # cs) \<in> measure length"
    using cnregex_match_length [of "c # cs" r] by simp
qed


subsection \<open>The conversion loop\<close>

text \<open>
  A route is the tuple \<open>(starting_ip, mask, mask2)\<close> appended to \<open>results\<close>: the
  network address, the dotted mask and the prefix length.
\<close>

type_synonym route = "string \<times> string \<times> int"

text \<open>
  \<open>sum_bind\<close> sequences two statements: an exception raised by the first leaves the
  block.
\<close>

definition sum_bind :: "'e + 'a \<Rightarrow> ('a \<Rightarrow> 'e + 'b) \<Rightarrow> 'e + 'b" where
  "sum_bind m f = (case m of Inl e \<Rightarrow> Inl e | Inr x \<Rightarrow> f x)"

fun sum_mapM :: "('a \<Rightarrow> 'e + 'b) \<Rightarrow> 'a list \<Rightarrow> 'e + 'b list" where
  "sum_mapM f [] = Inr []"
| "sum_mapM f (x # xs) =
     sum_bind (f x) (\<lambda>y. sum_bind (sum_mapM f xs) (\<lambda>ys. Inr (y # ys)))"

text \<open>
  The dotted mask of a host count: \<open>imask = 0xffffffff ^ (num_ip - 1)\<close>, its
  hexadecimal digits filled to eight, cut into four pairs, each pair read in base 16 and
  printed in base 10 between dots.
\<close>

definition dotted :: "int list \<Rightarrow> string" where
  "dotted m = py_str (m ! 0) @ ''.'' @ py_str (m ! 1) @ ''.'' @ py_str (m ! 2) @ ''.'' @ py_str (m ! 3)"

definition mask_of :: "int \<Rightarrow> py_error + string" where
  "mask_of num_ip =
     (let imask = 0xffffffff XOR (num_ip - 1);
          imask1 = drop 2 (py_hex imask);
          imask2 = zfill 8 imask1;
          mask = map (\<lambda>i. slice i (i + 2) imask2) [0, 2, 4, 6]
      in sum_bind (sum_mapM py_int16 mask) (\<lambda>mask1. Inr (dotted mask1)))"

definition convert_item :: "(int \<Rightarrow> int) \<Rightarrow> string \<Rightarrow> py_error + route" where
  "convert_item big_log item =
     (let unit_items = py_split CHR ''|'' item
      in sum_bind (py_index unit_items 3) (\<lambda>starting_ip.
         sum_bind (py_index unit_items 4) (\<lambda>f4.
         sum_bind (py_int f4) (\<lambda>num_ip.
         sum_bind (mask_of num_ip) (\<lambda>mask.
         sum_bind (py_log2_trunc big_log num_ip) (\<lambda>l.
         Inr (starting_ip, mask, 32 - l)))))))"

text \<open>
  The parsing stage of \<open>fetch_ip_data\<close>, from the decoded text to \<open>results\<close>. The
  first exception raised in the loop ends the function.
\<close>

definition fetch_ip_data_parse :: "(int \<Rightarrow> int) \<Rightarrow> string \<Rightarrow> py_error + route list" where
  "fetch_ip_data_parse big_log data = sum_mapM (convert_item big_log) (findall data)"

subsection \<open>Auxiliary definitions\<close>

text \<open>
  Auxiliary notions for stating the results: the \<open>w\<close> low hexadecimal digits of a
  number, the four octets of a 32-bit number from the most significant one, the reading
  of a dotted quad back into a number, and the text made of a list of lines.

  \<open>decode_dotted\<close> reads exactly four fields between dots; each must be an octet, the
  decimal form without leading zeros of a number from 0 to 255; the four octets are taken
  big-endian. Anything else is refused.
\<close>

fun hex_fixed :: "nat \<Rightarrow> int \<Rightarrow> string" where
  "hex_fixed 0 n = []"
| "hex_fixed (Suc w) n = hex_fixed w (n div 16) @ [hex_char (n mod 16)]"

definition hex_pair :: "int \<Rightarrow> string" where
  "hex_pair x = [hex_char (x div 16 mod 16), hex_char (x mod 16)]"

definition octets :: "int \<Rightarrow> int list" where
  "octets m = [m div 2 ^ 24 mod 256, m div 2 ^ 16 mod 256, m div 2 ^ 8 mod 256, m mod 256]"

definition read_octet :: "string \<Rightarrow> py_error + int" where
  "read_octet f =
     sum_bind (py_int f) (\<lambda>v. if v < 256 \<and> py_str v = f then Inr v else Inl ValueError)"

definition decode_dotted :: "string \<Rightarrow> py_error + int" where
  "decode_dotted s =
     (case py_split CHR ''.'' s of
        [a, b, c, d] \<Rightarrow>
          sum_bind (read_octet a) (\<lambda>a'. sum_bind (read_octet b) (\<lambda>b'.
          sum_bind (read_octet c) (\<lambda>c'. sum_bind (read_octet d) (\<lambda>d'.
          Inr (((a' * 256 + b') * 256 + c') * 256 + d')))))
      | _ \<Rightarrow> Inl ValueError)"

fun join_lines :: "string list \<Rightarrow> string" where
  "join_lines [] = []"
| "join_lines [l] = l"
| "join_lines (l # l' # ls) = l @ newline # join_lines (l' # ls)"


text \<open>
  A matcher is local to a line when a newline and anything after it do not change what it
  does before the newline. A line matches the filter when the expression matches
  somewhere in it.
\<close>

definition line_local :: "(string \<Rightarrow> string option) \<Rightarrow> bool" where
  "line_local f = (\<forall>a b. f (a @ newline # b) = map_option (\<lambda>r. r @ newline # b) (f a))"

definition line_matches :: "string \<Rightarrow> bool" where
  "line_matches l = (findall l \<noteq> [])"

section \<open>The progress reporter: the download loop of \<open>fetch_ip_data\<close>\<close>

text \<open>
  The loop reads chunks from the response until a read returns no bytes, and after each
  chunk computes what it prints: a percentage, a speed and a bar. The model is given
  \<open>total_size\<close> as it is after the header has been read (\<open>None\<close> when the header is
  absent or empty) and the sequence of reads, each with the value that \<open>time.time()\<close>
  returns after it. A chunk is the string of its bytes.

  Timestamps, speeds and percentages are Python floats. The model does not compute with
  them: a float is a value of a type \<open>'f\<close>, and each operation of the loop on floats is a
  field of \<open>float_ops\<close>, named after the Python expression it stands for. Integers too
  large for a float (byte counts above \<open>10 ^ 308\<close>) are outside the model, and so is the
  text written to the terminal (the percentage and the speed are printed with two
  decimals, the bar between brackets).
\<close>

record 'f float_ops =
  fsub :: "'f \<Rightarrow> 'f \<Rightarrow> 'f"
  fle :: "'f \<Rightarrow> 'f \<Rightarrow> bool"
  fgt_int :: "'f \<Rightarrow> int \<Rightarrow> bool"
  feq_zero :: "'f \<Rightarrow> bool"
  int_div_float :: "int \<Rightarrow> 'f \<Rightarrow> 'f"
  float_div_int :: "'f \<Rightarrow> int \<Rightarrow> 'f"
  int_div_int :: "int \<Rightarrow> int \<Rightarrow> 'f"
  float_mul_int :: "'f \<Rightarrow> int \<Rightarrow> 'f"
  float_to_int :: "'f \<Rightarrow> int"
  float_zero :: 'f

text \<open>\<open>progress\<close> is a float in one branch and the integer \<open>0\<close> in the other.\<close>

datatype 'f pynum = PyFloat 'f | PyInt int

record 'f pstate =
  downloaded :: int
  history :: "('f \<times> int) list"
  chunks :: "string list"

record 'f observation =
  progress :: "'f pynum"
  speed_mb_s :: 'f
  filled_length :: int
  bar :: string

definition init_state :: "'f pstate" where
  "init_state = \<lparr>downloaded = 0, history = [], chunks = []\<rparr>"

text \<open>\<open>while history and (current_time - history[0][0]) > 10: history.popleft()\<close>\<close>

fun evict :: "'f float_ops \<Rightarrow> 'f \<Rightarrow> ('f \<times> int) list \<Rightarrow> ('f \<times> int) list" where
  "evict ops current_time [] = []"
| "evict ops current_time ((t0, b0) # h) =
     (if fgt_int ops (fsub ops current_time t0) 10 then evict ops current_time h
      else (t0, b0) # h)"

text \<open>
  The speed over the window. The test \<open>history and \<dots>\<close> reads \<open>history[0]\<close> only when
  the window is not empty; the two reads of \<open>history[0]\<close> in the branch are not guarded
  again, and a division raises ZeroDivisionError when the divisor is zero.
\<close>

definition front_age_positive :: "'f float_ops \<Rightarrow> 'f \<Rightarrow> ('f \<times> int) list \<Rightarrow> bool" where
  "front_age_positive ops current_time h =
     (case h of [] \<Rightarrow> False | (t0, b0) # _ \<Rightarrow> fgt_int ops (fsub ops current_time t0) 0)"

definition speed_of :: "'f float_ops \<Rightarrow> 'f \<Rightarrow> int \<Rightarrow> ('f \<times> int) list \<Rightarrow> py_error + 'f" where
  "speed_of ops current_time dl h =
     (if front_age_positive ops current_time h
      then sum_bind (py_index h 0) (\<lambda>f1.
           sum_bind (py_index h 0) (\<lambda>f2.
           let time_diff = fsub ops current_time (fst f1);
               bytes_diff = dl - snd f2
           in sum_bind (if feq_zero ops time_diff then Inl ZeroDivisionError
                        else Inr (int_div_float ops bytes_diff time_diff)) (\<lambda>speed.
              if (1024 * 1024 :: int) = 0 then Inl ZeroDivisionError
              else Inr (float_div_int ops speed (1024 * 1024)))))
      else Inr (float_zero ops))"

text \<open>
  \<open>total_size\<close> is tested for truth: \<open>None\<close> and \<open>0\<close> both take the \<open>else\<close>
  branch. \<open>a / b\<close> on two integers raises ZeroDivisionError for \<open>b = 0\<close>.
\<close>

definition py_int_truediv :: "'f float_ops \<Rightarrow> int \<Rightarrow> int \<Rightarrow> py_error + 'f" where
  "py_int_truediv ops a b = (if b = 0 then Inl ZeroDivisionError else Inr (int_div_int ops a b))"

definition progress_of :: "'f float_ops \<Rightarrow> int option \<Rightarrow> int \<Rightarrow> py_error + 'f pynum" where
  "progress_of ops total_size dl =
     (case total_size of
        None \<Rightarrow> Inr (PyInt 0)
      | Some t \<Rightarrow>
          if t \<noteq> 0
          then sum_bind (py_int_truediv ops dl t) (\<lambda>q. Inr (PyFloat (float_mul_int ops q 100)))
          else Inr (PyInt 0))"

definition filled_of :: "'f float_ops \<Rightarrow> int option \<Rightarrow> int \<Rightarrow> py_error + int" where
  "filled_of ops total_size dl =
     (case total_size of
        None \<Rightarrow> Inr 0
      | Some t \<Rightarrow>
          if t \<noteq> 0
          then sum_bind (py_int_truediv ops (50 * dl) t) (\<lambda>q. Inr (float_to_int ops q))
          else Inr 0)"

text \<open>\<open>"#" * filled_length + "-" * (bar_width - filled_length)\<close>; a count below zero gives
  the empty string.\<close>

definition bar_of :: "int \<Rightarrow> string" where
  "bar_of filled = replicate (nat filled) CHR ''#'' @ replicate (nat (50 - filled)) CHR ''-''"

text \<open>The body of the loop for one chunk that is not empty.\<close>

definition on_chunk ::
  "'f float_ops \<Rightarrow> int option \<Rightarrow> string \<Rightarrow> 'f \<Rightarrow> 'f pstate
     \<Rightarrow> py_error + ('f pstate \<times> 'f observation)" where
  "on_chunk ops total_size chunk current_time st =
     (let dl = downloaded st + int (length chunk);
          h = evict ops current_time (history st @ [(current_time, dl)])
      in sum_bind (speed_of ops current_time dl h) (\<lambda>sp.
         sum_bind (progress_of ops total_size dl) (\<lambda>pr.
         sum_bind (filled_of ops total_size dl) (\<lambda>fl.
         Inr (\<lparr>downloaded = dl, history = h, chunks = chunks st @ [chunk]\<rparr>,
              \<lparr>progress = pr, speed_mb_s = sp, filled_length = fl, bar = bar_of fl\<rparr>)))))"

text \<open>
  The loop: it ends at the first read that returns nothing (or when the reads are used
  up), and an exception in the body ends it.
\<close>

fun feed ::
  "'f float_ops \<Rightarrow> int option \<Rightarrow> 'f pstate \<Rightarrow> (string \<times> 'f) list
     \<Rightarrow> py_error + ('f pstate \<times> 'f observation list)" where
  "feed ops total_size st [] = Inr (st, [])"
| "feed ops total_size st ((chunk, current_time) # rest) =
     (if chunk = [] then Inr (st, [])
      else sum_bind (on_chunk ops total_size chunk current_time st) (\<lambda>(st', ob).
           sum_bind (feed ops total_size st' rest) (\<lambda>(st'', obs). Inr (st'', ob # obs))))"

text \<open>
  Exact arithmetic on real numbers is one instance of the operations; the examples are
  evaluated with it, on numbers for which double precision arithmetic is exact too.
\<close>

definition real_ops :: "real float_ops" where
  "real_ops = \<lparr>fsub = (\<lambda>x y. x - y), fle = (\<lambda>x y. x \<le> y),
     fgt_int = (\<lambda>x k. real_of_int k < x), feq_zero = (\<lambda>x. x = 0),
     int_div_float = (\<lambda>i x. real_of_int i / x), float_div_int = (\<lambda>x k. x / real_of_int k),
     int_div_int = (\<lambda>i j. real_of_int i / real_of_int j),
     float_mul_int = (\<lambda>x k. x * real_of_int k),
     float_to_int = (\<lambda>x. if 0 \<le> x then \<lfloor>x\<rfloor> else \<lceil>x\<rceil>), float_zero = 0\<rparr>"


section \<open>The platform selector: the dispatch of the main program\<close>

text \<open>
  The main program reads the option \<open>-p\<close> (default \<open>openvpn\<close>; with \<open>nargs='?'\<close> the
  option given without a value is \<open>None\<close>) and the option \<open>-m\<close> (an integer, default 5,
  \<open>None\<close> when given without a value), lowers the selector and calls the generator of
  the platform. The generators are names of the module: it defines \<open>generate_ovpn\<close>,
  \<open>generate_linux\<close>, \<open>generate_mac\<close> and \<open>generate_android\<close>, and no other name
  starting with \<open>generate_\<close>. A name that is not defined raises NameError where it is
  evaluated. What a generator does is not part of the model: the outcome of the dispatch
  is the call it makes, the exception it raises, or the exit status with the text written
  to the standard error stream.
\<close>

datatype generator = generate_ovpn | generate_linux | generate_mac | generate_android

datatype outcome = Calls generator "int option" | Raises py_error | Exits int string

definition module_global :: "string \<Rightarrow> generator option" where
  "module_global name =
     (if name = ''generate_ovpn'' then Some generate_ovpn
      else if name = ''generate_linux'' then Some generate_linux
      else if name = ''generate_mac'' then Some generate_mac
      else if name = ''generate_android'' then Some generate_android
      else None)"

definition call_global :: "string \<Rightarrow> int option \<Rightarrow> outcome" where
  "call_global name metric =
     (case module_global name of None \<Rightarrow> Raises NameError | Some g \<Rightarrow> Calls g metric)"

text \<open>\<open>args.platform.lower()\<close> raises AttributeError on \<open>None\<close>.\<close>

definition main_dispatch :: "string option \<Rightarrow> int option \<Rightarrow> outcome" where
  "main_dispatch platform_arg metric =
     (case platform_arg of
        None \<Rightarrow> Raises AttributeError
      | Some given \<Rightarrow>
          let platform = py_lower given
          in if platform = ''openvpn'' then call_global ''generate_ovpn'' metric
             else if platform = ''linux'' then call_global ''generate_linux'' metric
             else if platform = ''mac'' then call_global ''generate_mac'' metric
             else if platform = ''win'' then call_global ''generate_win'' metric
             else if platform = ''android'' then call_global ''generate_android'' metric
             else Exits 1 (''Platform '' @ given @ '' is not supported.'' @ [newline]))"

section \<open>Digits, hexadecimal strings and masks\<close>

lemma hex_char_props:
  assumes "0 \<le> d" "d < 16"
  shows "is_hexdigit (hex_char d) \<and> hexdigit_val (hex_char d) = d"
proof -
  from assms have "d = 0 \<or> d = 1 \<or> d = 2 \<or> d = 3 \<or> d = 4 \<or> d = 5 \<or> d = 6 \<or> d = 7 \<or> d = 8
     \<or> d = 9 \<or> d = 10 \<or> d = 11 \<or> d = 12 \<or> d = 13 \<or> d = 14 \<or> d = 15" by arith
  then show ?thesis
    by (elim disjE) (simp_all add: hex_char_def is_hexdigit_def hexdigit_val_def)
qed

lemma dec_char_props:
  assumes "0 \<le> d" "d < 10"
  shows "is_digit (dec_char d) \<and> digit_val (dec_char d) = d"
proof -
  from assms have "d = 0 \<or> d = 1 \<or> d = 2 \<or> d = 3 \<or> d = 4 \<or> d = 5 \<or> d = 6 \<or> d = 7 \<or> d = 8
     \<or> d = 9" by arith
  then show ?thesis
    by (elim disjE) (simp_all add: dec_char_def is_digit_def digit_val_def)
qed

lemma hex_digits_all: "0 \<le> n \<Longrightarrow> list_all is_hexdigit (hex_digits n) \<and> hex_digits n \<noteq> []"
proof (induction n rule: hex_digits.induct)
  case (1 n)
  show ?case
  proof (cases "n < 16")
    case True
    with 1 show ?thesis by (simp add: hex_digits.simps[of n] hex_char_props)
  next
    case False
    then have "0 \<le> n div 16" "0 \<le> n mod 16" "n mod 16 < 16" by simp_all
    with 1 False show ?thesis by (simp add: hex_digits.simps[of n] hex_char_props)
  qed
qed

lemma dec_digits_all: "0 \<le> n \<Longrightarrow> list_all is_digit (dec_digits n) \<and> dec_digits n \<noteq> []"
proof (induction n rule: dec_digits.induct)
  case (1 n)
  show ?case
  proof (cases "n < 10")
    case True
    with 1 show ?thesis by (simp add: dec_digits.simps[of n] dec_char_props)
  next
    case False
    then have "0 \<le> n div 10" "0 \<le> n mod 10" "n mod 10 < 10" by simp_all
    with 1 False show ?thesis by (simp add: dec_digits.simps[of n] dec_char_props)
  qed
qed

lemma dec_digits_value: "0 \<le> n \<Longrightarrow> foldl (\<lambda>acc c. 10 * acc + digit_val c) 0 (dec_digits n) = n"
proof (induction n rule: dec_digits.induct)
  case (1 n)
  show ?case
  proof (cases "n < 10")
    case True
    with 1 show ?thesis by (simp add: dec_digits.simps[of n] dec_char_props)
  next
    case False
    then have "0 \<le> n div 10" "0 \<le> n mod 10" "n mod 10 < 10" by simp_all
    with 1 False show ?thesis by (simp add: dec_digits.simps[of n] dec_char_props)
  qed
qed

lemma dec_digits_length: "0 \<le> n \<Longrightarrow> length (dec_digits n) \<le> nat n + 1"
proof (induction n rule: dec_digits.induct)
  case (1 n)
  show ?case
  proof (cases "n < 10")
    case True
    then show ?thesis by (simp add: dec_digits.simps[of n])
  next
    case False
    then have h: "0 \<le> n div 10" and l: "nat (n div 10) + 1 \<le> nat n" by simp_all
    from "1.IH"[OF False h] l False show ?thesis by (simp add: dec_digits.simps[of n])
  qed
qed

lemma py_int_py_str: "0 \<le> n \<Longrightarrow> n < 256 \<Longrightarrow> py_int (py_str n) = Inr n"
proof -
  assume n: "0 \<le> n" "n < 256"
  then have "length (dec_digits n) \<le> int_max_str_digits"
    using dec_digits_length[of n] by (simp add: int_max_str_digits_def)
  with n show ?thesis
    by (simp add: py_int_def py_str_def dec_digits_all dec_digits_value)
qed

lemma read_octet_py_str: "0 \<le> n \<Longrightarrow> n < 256 \<Longrightarrow> read_octet (py_str n) = Inr n"
  by (simp add: read_octet_def py_int_py_str sum_bind_def)

lemma ilog2_power: "ilog2 (2 ^ k) = int k"
proof (induction k)
  case 0
  show ?case by (simp add: ilog2.simps[of 1])
next
  case (Suc k)
  have "(1::int) \<le> 2 ^ k" by simp
  then have "\<not> (2::int) * 2 ^ k < 2" by linarith
  then show ?case using Suc by (simp add: ilog2.simps[of "2 * 2 ^ k"])
qed

lemma hex_fixed_zero: "hex_fixed w 0 = replicate w CHR ''0''"
  by (induction w) (simp_all add: hex_char_def replicate_append_same)

lemma hex_fixed_length: "length (hex_fixed w n) = w"
  by (induction w arbitrary: n) simp_all

lemma hex_digits_fixed:
  "0 \<le> n \<Longrightarrow> n < 16 ^ w \<Longrightarrow> 0 < w \<Longrightarrow>
   length (hex_digits n) \<le> w \<and>
   replicate (w - length (hex_digits n)) CHR ''0'' @ hex_digits n = hex_fixed w n"
proof (induction w arbitrary: n)
  case 0
  then show ?case by simp
next
  case (Suc w)
  show ?case
  proof (cases "n < 16")
    case True
    with Suc.prems show ?thesis
      by (simp add: hex_digits.simps[of n] hex_fixed_zero)
  next
    case False
    with Suc.prems have w: "0 < w" by (cases w) auto
    from False Suc.prems have "0 \<le> n div 16" "n div 16 < 16 ^ w" by auto
    from Suc.IH[OF this w] False show ?thesis
      by (simp add: hex_digits.simps[of n] Suc_diff_le)
  qed
qed

lemma hex_digits_no_sign: "0 \<le> n \<Longrightarrow> hd (hex_digits n) \<noteq> CHR ''+'' \<and> hd (hex_digits n) \<noteq> CHR ''-''"
proof -
  assume "0 \<le> n"
  then have "list_all is_hexdigit (hex_digits n)" "hex_digits n \<noteq> []"
    using hex_digits_all by auto
  then have "is_hexdigit (hd (hex_digits n))" by (cases "hex_digits n") auto
  then show ?thesis by (auto simp: is_hexdigit_def)
qed

lemma zfill_hex_digits:
  assumes "0 \<le> n" "n < 16 ^ 8"
  shows "zfill 8 (hex_digits n) = hex_fixed 8 n"
proof -
  have f: "length (hex_digits n) \<le> 8"
    "replicate (8 - length (hex_digits n)) CHR ''0'' @ hex_digits n = hex_fixed 8 n"
    using hex_digits_fixed[OF assms, of ] by simp_all
  have ne: "hex_digits n \<noteq> []" using hex_digits_all assms by simp
  then obtain c cs where cs: "hex_digits n = c # cs" by (cases "hex_digits n") auto
  with hex_digits_no_sign[OF assms(1)] have c: "c \<noteq> CHR ''+''" "c \<noteq> CHR ''-''" by auto
  show ?thesis
  proof (cases "8 \<le> length (hex_digits n)")
    case True
    with f have "length (hex_digits n) = 8" by simp
    with f(2) True show ?thesis by (simp add: zfill_def)
  next
    case False
    with f(2) cs c show ?thesis by (simp add: zfill_def)
  qed
qed

lemma py_int16_pair:
  assumes "0 \<le> a" "a < 16" "0 \<le> b" "b < 16"
  shows "py_int16 [hex_char a, hex_char b] = Inr (16 * a + b)"
  using hex_char_props[OF assms(1,2)] hex_char_props[OF assms(3,4)]
  by (simp add: py_int16_def)

lemma py_hex_nonneg: "0 \<le> m \<Longrightarrow> drop 2 (py_hex m) = hex_digits m"
  by (simp add: py_hex_def)

lemma pair16: "16 * ((x::int) div 16 mod 16) + x mod 16 = x mod 256"
  using zmod_zmult2_eq[of 16 x 16] by simp

lemma div_div_int: "0 < b \<Longrightarrow> 0 < c \<Longrightarrow> (a::int) div b div c = a div (b * c)"
  by (simp add: zdiv_zmult2_eq)

lemma div16_16: "(n::int) div 16 div 16 = n div 256"
  by (simp add: div_div_int)

lemma div256s:
  fixes m :: int
  shows "m div 256 div 256 = m div 2 ^ 16"
    and "m div 2 ^ 16 div 256 = m div 2 ^ 24"
    and "m div 256 = m div 2 ^ 8"
  by (simp_all add: div_div_int)

lemma hex_fixed_pair: "hex_fixed (Suc (Suc w)) n = hex_fixed w (n div 256) @ hex_pair n"
  by (simp add: hex_pair_def div16_16)

lemma hex_fixed_8:
  "hex_fixed 8 m = hex_pair (m div 2 ^ 24) @ hex_pair (m div 2 ^ 16) @ hex_pair (m div 2 ^ 8) @ hex_pair m"
proof -
  have e8: "(8::nat) = Suc (Suc (Suc (Suc (Suc (Suc (Suc (Suc 0)))))))" by simp
  have "hex_fixed 8 m = hex_pair (m div 256 div 256 div 256) @ hex_pair (m div 256 div 256)
      @ hex_pair (m div 256) @ hex_pair m"
    unfolding e8 hex_fixed_pair by (simp only: hex_fixed.simps(1) append_Nil append_assoc)
  then have "hex_fixed 8 m = hex_pair (m div 2 ^ 24) @ hex_pair (m div 2 ^ 16)
      @ hex_pair (m div 256) @ hex_pair m"
    by (simp only: div256s(1,2))
  then show ?thesis by (simp only: div256s(3))
qed

lemma hex_pair_length: "length (hex_pair x) = 2"
  by (simp add: hex_pair_def)

lemma py_int16_hex_pair: "py_int16 (hex_pair x) = Inr (x mod 256)"
  using py_int16_pair[of "x div 16 mod 16" "x mod 16"] pair16[of x]
  by (simp add: hex_pair_def)

lemma slices4:
  assumes "length a = 2" "length b = 2" "length c = 2" "length d = 2"
  shows "map (\<lambda>i. slice i (i + 2) (a @ b @ c @ d)) [0, 2, 4, 6] = [a, b, c, d]"
  using assms by (simp add: slice_def)

lemma slices_hex_fixed_8:
  "sum_mapM py_int16 (map (\<lambda>i. slice i (i + 2) (hex_fixed 8 m)) [0, 2, 4, 6]) = Inr (octets m)"
  by (simp only: hex_fixed_8
      slices4[OF hex_pair_length hex_pair_length hex_pair_length hex_pair_length]
      sum_mapM.simps py_int16_hex_pair sum_bind_def sum.case octets_def)

lemma mask_of_in_range:
  assumes "0 \<le> 0xffffffff XOR (num_ip - 1)" "0xffffffff XOR (num_ip - 1) < 2 ^ 32"
  shows "mask_of num_ip = Inr (dotted (octets (0xffffffff XOR (num_ip - 1))))"
proof -
  define m where "m = 0xffffffff XOR (num_ip - 1)"
  have m16: "m < 16 ^ 8" "0 \<le> m" using assms unfolding m_def by simp_all
  have z: "zfill 8 (drop 2 (py_hex m)) = hex_fixed 8 m"
    using m16 by (simp add: py_hex_nonneg zfill_hex_digits)
  show ?thesis
    by (simp only: mask_of_def Let_def m_def[symmetric] z slices_hex_fixed_8 sum_bind_def sum.case)
qed

subsection \<open>Splitting and reading a dotted quad\<close>

lemma py_split_nonempty: "py_split sep s \<noteq> []"
  by (induction s) (auto split: list.splits)

lemma py_split_no_sep: "sep \<notin> set x \<Longrightarrow> py_split sep x = [x]"
  by (induction x) auto

lemma py_split_append:
  "sep \<notin> set x \<Longrightarrow> py_split sep (x @ sep # y) = x # py_split sep y"
  by (induction x) auto

lemma py_split_length: "length (py_split sep s) = Suc (count_list s sep)"
proof (induction s)
  case Nil
  show ?case by simp
next
  case (Cons c s)
  obtain f fs where "py_split sep s = f # fs"
    using py_split_nonempty[of sep s] by (cases "py_split sep s") auto
  with Cons show ?case by auto
qed

lemma py_str_digits: "0 \<le> n \<Longrightarrow> list_all is_digit (py_str n)"
  by (simp add: py_str_def dec_digits_all)

lemma py_str_no_dot: "0 \<le> n \<Longrightarrow> CHR ''.'' \<notin> set (py_str n)"
proof
  assume "0 \<le> n" "CHR ''.'' \<in> set (py_str n)"
  then have "is_digit CHR ''.''" using py_str_digits[of n] by (auto simp: list_all_iff)
  then show False by (simp add: is_digit_def)
qed

lemma split_quad:
  assumes "sep \<notin> set a" "sep \<notin> set b" "sep \<notin> set c" "sep \<notin> set d"
  shows "py_split sep (a @ [sep] @ b @ [sep] @ c @ [sep] @ d) = [a, b, c, d]"
  using assms by (simp add: py_split_append py_split_no_sep)

lemma decode_dotted_quad:
  assumes "0 \<le> a \<and> a < 256" "0 \<le> b \<and> b < 256" "0 \<le> c \<and> c < 256" "0 \<le> d \<and> d < 256"
  shows "decode_dotted (dotted [a, b, c, d]) = Inr (((a * 256 + b) * 256 + c) * 256 + d)"
proof -
  have "dotted [a, b, c, d] = py_str a @ [CHR ''.''] @ py_str b @ [CHR ''.''] @ py_str c @ [CHR ''.''] @ py_str d"
    by (simp add: dotted_def)
  then have "py_split CHR ''.'' (dotted [a, b, c, d]) = [py_str a, py_str b, py_str c, py_str d]"
    using assms split_quad[of "CHR ''.''" "py_str a" "py_str b" "py_str c" "py_str d"]
    by (simp only: py_str_no_dot not_False_eq_True)
  then show ?thesis
    using assms by (simp add: decode_dotted_def sum_bind_def read_octet_py_str)
qed

lemma top_octet_small:
  assumes "0 \<le> (m::int)" "m < 2 ^ 32"
  shows "m div 2 ^ 24 mod 256 = m div 2 ^ 24"
proof -
  have "m = m div 16777216 * 16777216 + m mod 16777216" by simp
  moreover have "0 \<le> m mod 16777216" by simp
  ultimately have "m div 16777216 * 16777216 \<le> m" by linarith
  with assms(2) have "m div 16777216 < 256" by simp
  moreover have "0 \<le> m div 16777216" using assms(1) by simp
  ultimately show ?thesis by simp
qed

lemma octets_value:
  fixes m :: int
  assumes "0 \<le> m" "m < 2 ^ 32"
  shows "((m div 2 ^ 24 mod 256 * 256 + m div 2 ^ 16 mod 256) * 256 + m div 2 ^ 8 mod 256) * 256
           + m mod 256 = m"
proof -
  define x24 x16 x8 where "x24 = m div 2 ^ 24" and "x16 = m div 2 ^ 16" and "x8 = m div 2 ^ 8"
  define B C D where "B = x16 mod 256" and "C = x8 mod 256" and "D = m mod 256"
  have a: "x24 mod 256 = x24"
    unfolding x24_def using assms by (rule top_octet_small)
  have e1: "x16 div 256 = x24"
    unfolding x16_def x24_def by (rule div256s(2))
  have e2: "x8 div 256 = x16"
    unfolding x8_def x16_def div256s(3)[symmetric] by (rule div256s(1))
  have e3: "m div 256 = x8"
    unfolding x8_def by (rule div256s(3))
  have b: "x16 = x24 * 256 + B"
    unfolding B_def e1[symmetric] by (rule div_mult_mod_eq[symmetric])
  have c: "x8 = x16 * 256 + C"
    unfolding C_def e2[symmetric] by (rule div_mult_mod_eq[symmetric])
  have d: "m = x8 * 256 + D"
    unfolding D_def e3[symmetric] by (rule div_mult_mod_eq[symmetric])
  have "((x24 mod 256 * 256 + B) * 256 + C) * 256 + D = m"
    unfolding a using b c d by simp
  then show ?thesis
    unfolding B_def C_def D_def x24_def x16_def x8_def .
qed

lemma decode_dotted_octets:
  fixes m :: int
  assumes "0 \<le> m" "m < 2 ^ 32"
  shows "decode_dotted (dotted (octets m)) = Inr m"
proof -
  have "decode_dotted (dotted (octets m)) =
      Inr (((m div 2 ^ 24 mod 256 * 256 + m div 2 ^ 16 mod 256) * 256 + m div 2 ^ 8 mod 256) * 256
           + m mod 256)"
    unfolding octets_def
    by (rule decode_dotted_quad)
      (rule conjI[OF pos_mod_sign pos_mod_bound], simp, simp)+
  then show ?thesis by (simp only: octets_value[OF assms])
qed

lemma imask_range:
  fixes n :: int
  assumes "1 \<le> n" "n \<le> 2 ^ 32"
  shows "0 \<le> 0xffffffff XOR (n - 1)" and "0xffffffff XOR (n - 1) < 2 ^ 32"
proof -
  show "0 \<le> 0xffffffff XOR (n - 1)" using assms by simp
  show "0xffffffff XOR (n - 1) < 2 ^ 32"
    using assms by (intro XOR_upper) simp_all
qed

section \<open>The shape of a match\<close>

lemma py_lower_char_pipe: "py_lower_char c = CHR ''|'' \<longleftrightarrow> c = CHR ''|''"
proof
  assume a: "py_lower_char c = CHR ''|''"
  show "c = CHR ''|''"
  proof (rule ccontr)
    assume n: "c \<noteq> CHR ''|''"
    define k where "k = (of_char c :: nat)"
    from a n have u: "(65 \<le> k \<and> k \<le> 90) \<or> (192 \<le> k \<and> k \<le> 222 \<and> k \<noteq> 215)"
      and e: "char_of (k + 32) = CHR ''|''"
      by (auto simp: py_lower_char_def Let_def k_def split: if_splits)
    from e have "(of_char (char_of (k + 32) :: char) :: nat) = of_char CHR ''|''" by simp
    then have "(k + 32) mod 256 = 124" by simp
    with u show False by auto
  qed
next
  assume "c = CHR ''|''"
  then show "py_lower_char c = CHR ''|''" by (simp add: py_lower_char_def)
qed

lemma py_lower_char_newline: "py_lower_char newline = newline"
  by (simp add: py_lower_char_def newline_def)

lemma lit_ci_split:
  "lit_ci p s = Some r \<Longrightarrow> \<exists>h. s = h @ r \<and> map py_lower_char h = map py_lower_char p"
proof (induction p s rule: lit_ci.induct)
  case (1 s)
  then show ?case by simp
next
  case (2 p ps)
  then show ?case by simp
next
  case (3 p ps c cs)
  then have eq: "py_lower_char c = py_lower_char p" and "lit_ci ps cs = Some r"
    by (auto split: if_splits)
  with 3 obtain h where "cs = h @ r" "map py_lower_char h = map py_lower_char ps" by auto
  with eq have "c # cs = (c # h) @ r \<and> map py_lower_char (c # h) = map py_lower_char (p # ps)"
    by simp
  then show ?case by blast
qed

lemma many1_split:
  "many1 P s = Some r \<Longrightarrow> \<exists>t. s = t @ r \<and> t \<noteq> [] \<and> list_all P t \<and> (r = [] \<or> \<not> P (hd r))"
proof -
  assume "many1 P s = Some r"
  then have t: "takeWhile P s \<noteq> []" and r: "r = dropWhile P s"
    by (auto simp: many1_def split: if_splits)
  have "s = takeWhile P s @ r" using r by simp
  moreover have "list_all P (takeWhile P s)" by (simp add: list_all_iff) (meson set_takeWhileD)
  moreover have "r = [] \<or> \<not> P (hd r)"
    unfolding r using hd_dropWhile[of P s] by blast
  ultimately show ?thesis using t by blast
qed

lemma dot_star_split:
  "dot_star s = Some r \<Longrightarrow> \<exists>t. s = t @ r \<and> newline \<notin> set t \<and> (r = [] \<or> hd r = newline)"
proof -
  assume "dot_star s = Some r"
  then have r: "r = dropWhile (\<lambda>c. c \<noteq> newline) s" by (simp add: dot_star_def)
  have "s = takeWhile (\<lambda>c. c \<noteq> newline) s @ r" using r by simp
  moreover have "newline \<notin> set (takeWhile (\<lambda>c. c \<noteq> newline) s)"
    using set_takeWhileD[of newline "\<lambda>c. c \<noteq> newline" s] by blast
  moreover have "r = [] \<or> hd r = newline"
    unfolding r using hd_dropWhile[of "\<lambda>c. c \<noteq> newline" s] by auto
  ultimately show ?thesis by blast
qed


lemma lit_ci_pipe: "lit_ci ''|'' s = Some r \<Longrightarrow> s = CHR ''|'' # r"
proof -
  assume "lit_ci ''|'' s = Some r"
  then obtain h where h: "s = h @ r" "map py_lower_char h = map py_lower_char ''|''"
    using lit_ci_split by blast
  have "py_lower_char CHR ''|'' = CHR ''|''" by (simp add: py_lower_char_pipe)
  with h(2) have "h = ''|''" by (auto simp: map_eq_Cons_conv py_lower_char_pipe)
  with h(1) show ?thesis by simp
qed

lemma lit_ci_pipe_a:
  "lit_ci ''|a'' s = Some r \<Longrightarrow> \<exists>a. s = CHR ''|'' # a # r \<and> a \<noteq> CHR ''|'' \<and> a \<noteq> newline"
proof -
  assume "lit_ci ''|a'' s = Some r"
  then obtain h where h: "s = h @ r" "map py_lower_char h = map py_lower_char ''|a''"
    using lit_ci_split by blast
  have p: "py_lower_char CHR ''|'' = CHR ''|''" by (simp add: py_lower_char_pipe)
  have a: "py_lower_char CHR ''a'' = CHR ''a''" by (simp add: py_lower_char_def)
  from h(2) obtain c d where cd: "h = [c, d]" "py_lower_char c = CHR ''|''" "py_lower_char d = CHR ''a''"
    unfolding p a list.map by (auto simp: map_eq_Cons_conv)
  have "d \<noteq> CHR ''|''" using cd(3) p by auto
  moreover have "d \<noteq> newline" using cd(3) py_lower_char_newline by (auto simp: newline_def)
  ultimately show ?thesis using h(1) cd by (auto simp: py_lower_char_pipe)
qed

lemma lit_ci_head:
  assumes "lit_ci ''apnic|cn|ipv4|'' s = Some r"
  shows "\<exists>x0 x1 x2. s = x0 @ CHR ''|'' # x1 @ CHR ''|'' # x2 @ CHR ''|'' # r
           \<and> CHR ''|'' \<notin> set x0 \<and> CHR ''|'' \<notin> set x1 \<and> CHR ''|'' \<notin> set x2
           \<and> newline \<notin> set x0 \<and> newline \<notin> set x1 \<and> newline \<notin> set x2"
proof -
  from assms obtain h where h: "s = h @ r"
      "map py_lower_char h = map py_lower_char ''apnic|cn|ipv4|''"
    using lit_ci_split by blast
  have e: "map py_lower_char ''apnic|cn|ipv4|'' = ''apnic|cn|ipv4|''" by code_simp
  from h(2) obtain c0 c1 c2 c3 c4 c5 c6 c7 c8 c9 c10 c11 c12 c13 where
    hh: "h = [c0, c1, c2, c3, c4, c5, c6, c7, c8, c9, c10, c11, c12, c13]"
    and l: "map py_lower_char [c0, c1, c2, c3, c4, c5, c6, c7, c8, c9, c10, c11, c12, c13] = ''apnic|cn|ipv4|''"
    unfolding e by (auto simp: map_eq_Cons_conv)
  have np: "py_lower_char CHR ''|'' = CHR ''|''" by (simp add: py_lower_char_pipe)
  have nn: "py_lower_char CHR 0x0A = CHR 0x0A"
    using py_lower_char_newline by (simp add: newline_def)
  from l have p: "c5 = CHR ''|''" "c8 = CHR ''|''" "c13 = CHR ''|''"
    by (simp_all add: py_lower_char_pipe)
  from l have q: "CHR ''|'' \<notin> set [c0, c1, c2, c3, c4]" "CHR ''|'' \<notin> set [c6, c7]"
      "CHR ''|'' \<notin> set [c9, c10, c11, c12]"
    by (auto simp: np)
  from l have n: "newline \<notin> set [c0, c1, c2, c3, c4]" "newline \<notin> set [c6, c7]"
      "newline \<notin> set [c9, c10, c11, c12]"
    by (auto simp: nn newline_def)
  have "s = [c0, c1, c2, c3, c4] @ CHR ''|'' # [c6, c7] @ CHR ''|'' # [c9, c10, c11, c12] @ CHR ''|'' # r"
    using h(1) hh p by simp
  with q n show ?thesis by blast
qed

lemma cnregex_match_shape:
  assumes "cnregex_match s = Some r"
  obtains x0 x1 x2 ip cnt dt a tl where
    "s = x0 @ CHR ''|'' # x1 @ CHR ''|'' # x2 @ CHR ''|'' # ip @ CHR ''|'' # cnt @ CHR ''|''
           # dt @ CHR ''|'' # a # tl @ r"
    "CHR ''|'' \<notin> set x0 \<and> CHR ''|'' \<notin> set x1 \<and> CHR ''|'' \<notin> set x2"
    "newline \<notin> set x0 \<and> newline \<notin> set x1 \<and> newline \<notin> set x2"
    "ip \<noteq> [] \<and> list_all is_ip_char ip"
    "cnt \<noteq> [] \<and> list_all is_digit cnt"
    "dt \<noteq> [] \<and> list_all is_digit dt"
    "a \<noteq> CHR ''|'' \<and> a \<noteq> newline \<and> newline \<notin> set tl"
    "r = [] \<or> hd r = newline"
proof -
  from assms obtain s1 s2 s3 s4 s5 s6 s7 where
    h: "lit_ci ''apnic|cn|ipv4|'' s = Some s1" "many1 is_ip_char s1 = Some s2"
    "lit_ci ''|'' s2 = Some s3" "many1 is_digit s3 = Some s4"
    "lit_ci ''|'' s4 = Some s5" "many1 is_digit s5 = Some s6"
    "lit_ci ''|a'' s6 = Some s7" "dot_star s7 = Some r"
    by (rule cnregex_match_parts)
  from lit_ci_head[OF h(1)] obtain x0 x1 x2 where
    a1: "s = x0 @ CHR ''|'' # x1 @ CHR ''|'' # x2 @ CHR ''|'' # s1"
    and b1: "CHR ''|'' \<notin> set x0 \<and> CHR ''|'' \<notin> set x1 \<and> CHR ''|'' \<notin> set x2"
    and c1: "newline \<notin> set x0 \<and> newline \<notin> set x1 \<and> newline \<notin> set x2"
    by blast
  from many1_split[OF h(2)] obtain ip where
    a2: "s1 = ip @ s2" and b2: "ip \<noteq> [] \<and> list_all is_ip_char ip"
    by blast
  from lit_ci_pipe[OF h(3)] have a3: "s2 = CHR ''|'' # s3" .
  from many1_split[OF h(4)] obtain cnt where
    a4: "s3 = cnt @ s4" and b4: "cnt \<noteq> [] \<and> list_all is_digit cnt"
    by blast
  from lit_ci_pipe[OF h(5)] have a5: "s4 = CHR ''|'' # s5" .
  from many1_split[OF h(6)] obtain dt where
    a6: "s5 = dt @ s6" and b6: "dt \<noteq> [] \<and> list_all is_digit dt"
    by blast
  from lit_ci_pipe_a[OF h(7)] obtain a where
    a7: "s6 = CHR ''|'' # a # s7" and b7: "a \<noteq> CHR ''|''" "a \<noteq> newline"
    by blast
  from dot_star_split[OF h(8)] obtain tl where
    a8: "s7 = tl @ r" and b8: "newline \<notin> set tl" "r = [] \<or> hd r = newline"
    by blast
  have e: "s = x0 @ CHR ''|'' # x1 @ CHR ''|'' # x2 @ CHR ''|'' # ip @ CHR ''|'' # cnt @ CHR ''|''
                 # dt @ CHR ''|'' # a # tl @ r"
    unfolding a1 a2 a3 a4 a5 a6 a7 a8 by simp
  have f: "a \<noteq> CHR ''|'' \<and> a \<noteq> newline \<and> newline \<notin> set tl" using b7 b8(1) by simp
  show ?thesis by (rule that[OF e b1 c1 b2 b4 b6 f b8(2)])
qed


lemma is_digit_not_sep: "is_digit c \<Longrightarrow> c \<noteq> CHR ''|'' \<and> c \<noteq> newline"
  unfolding is_digit_def newline_def by auto

lemma is_ip_char_not_sep: "is_ip_char c \<Longrightarrow> c \<noteq> CHR ''|'' \<and> c \<noteq> newline"
  unfolding is_ip_char_def using is_digit_not_sep[of c] by (auto simp: newline_def)

lemma digits_no_pipe: "list_all is_digit xs \<Longrightarrow> CHR ''|'' \<notin> set xs \<and> newline \<notin> set xs"
  unfolding list_all_iff using is_digit_not_sep by blast

lemma ip_chars_no_pipe: "list_all is_ip_char xs \<Longrightarrow> CHR ''|'' \<notin> set xs \<and> newline \<notin> set xs"
  unfolding list_all_iff using is_ip_char_not_sep by blast

lemma cnregex_match_fields:
  assumes "cnregex_match s = Some r"
  obtains x0 x1 x2 ip cnt dt rest where
    "py_split CHR ''|'' (take (length s - length r) s) = x0 # x1 # x2 # ip # cnt # dt # rest"
    "rest \<noteq> []" "cnt \<noteq> []" "list_all is_digit cnt"
    "s = take (length s - length r) s @ r"
    "newline \<notin> set (take (length s - length r) s)"
    "r = [] \<or> hd r = newline"
proof -
  from assms obtain x0 x1 x2 ip cnt dt a tl where
    s: "s = x0 @ CHR ''|'' # x1 @ CHR ''|'' # x2 @ CHR ''|'' # ip @ CHR ''|'' # cnt @ CHR ''|''
                 # dt @ CHR ''|'' # a # tl @ r"
    and x: "CHR ''|'' \<notin> set x0 \<and> CHR ''|'' \<notin> set x1 \<and> CHR ''|'' \<notin> set x2"
    and xn: "newline \<notin> set x0 \<and> newline \<notin> set x1 \<and> newline \<notin> set x2"
    and ip: "ip \<noteq> [] \<and> list_all is_ip_char ip"
    and cnt: "cnt \<noteq> [] \<and> list_all is_digit cnt"
    and dt: "dt \<noteq> [] \<and> list_all is_digit dt"
    and a: "a \<noteq> CHR ''|'' \<and> a \<noteq> newline \<and> newline \<notin> set tl"
    and r: "r = [] \<or> hd r = newline"
    by (rule cnregex_match_shape)
  define item where "item = x0 @ CHR ''|'' # x1 @ CHR ''|'' # x2 @ CHR ''|'' # ip @ CHR ''|'' # cnt
      @ CHR ''|'' # dt @ CHR ''|'' # a # tl"
  have sr: "s = item @ r" unfolding item_def using s by simp
  then have t: "take (length s - length r) s = item" by simp
  have p: "CHR ''|'' \<notin> set ip" "CHR ''|'' \<notin> set cnt" "CHR ''|'' \<notin> set dt"
    using ip cnt dt ip_chars_no_pipe digits_no_pipe by blast+
  have n: "newline \<notin> set ip" "newline \<notin> set cnt" "newline \<notin> set dt"
    using ip cnt dt ip_chars_no_pipe digits_no_pipe by blast+
  define rest where "rest = py_split CHR ''|'' (a # tl)"
  have rest: "rest \<noteq> []" unfolding rest_def by (rule py_split_nonempty)
  have f: "py_split CHR ''|'' item = x0 # x1 # x2 # ip # cnt # dt # rest"
    unfolding item_def rest_def using x p by (simp only: py_split_append not_False_eq_True)
  have nl: "newline \<notin> set item"
    unfolding item_def using xn a n by (auto simp: newline_def)
  have g1: "py_split CHR ''|'' (take (length s - length r) s) = x0 # x1 # x2 # ip # cnt # dt # rest"
    unfolding t by (rule f)
  have g5: "s = take (length s - length r) s @ r"
    unfolding t by (rule sr)
  have g6: "newline \<notin> set (take (length s - length r) s)"
    unfolding t by (rule nl)
  show ?thesis
    by (rule that[OF g1 rest conjunct1[OF cnt] conjunct2[OF cnt] g5 g6 r])
qed

lemma findall_member:
  "item \<in> set (findall s) \<Longrightarrow>
     \<exists>s' r. cnregex_match s' = Some r \<and> item = take (length s' - length r) s'"
proof (induction s rule: findall.induct)
  case 1
  then show ?case by simp
next
  case (2 c cs)
  show ?case
  proof (cases "cnregex_match (c # cs)")
    case None
    with 2 show ?thesis by simp
  next
    case (Some r)
    show ?thesis
    proof (cases "item = take (length (c # cs) - length r) (c # cs)")
      case True
      with Some show ?thesis by blast
    next
      case False
      with 2(3) Some have "item \<in> set (findall r)" by simp
      with 2(2)[OF Some] show ?thesis .
    qed
  qed
qed

section \<open>The loop body on a matched record\<close>

lemma zfill_hexdigits:
  assumes "list_all is_hexdigit s" "s \<noteq> []"
  shows "list_all is_hexdigit (zfill 8 s) \<and> 8 \<le> length (zfill 8 s)"
proof (cases "8 \<le> length s")
  case True
  with assms show ?thesis by (simp add: zfill_def)
next
  case False
  from assms obtain c cs where cs: "s = c # cs" by (cases s) auto
  with assms(1) have "is_hexdigit c" by simp
  then have c: "c \<noteq> CHR ''+''" "c \<noteq> CHR ''-''" by (auto simp: is_hexdigit_def)
  have z: "is_hexdigit CHR ''0''" by (simp add: is_hexdigit_def)
  have "zfill 8 s = replicate (8 - length s) CHR ''0'' @ s"
    using False cs c by (simp add: zfill_def)
  with assms(1) False z show ?thesis by (simp add: list_all_iff)
qed

lemma py_int16_slice:
  assumes "list_all is_hexdigit s" "i + 2 \<le> length s"
  shows "\<exists>v. py_int16 (slice i (i + 2) s) = Inr v"
proof -
  have "set (slice i (i + 2) s) \<subseteq> set s"
    unfolding slice_def by (meson set_take_subset set_drop_subset subset_trans)
  with assms(1) have "list_all is_hexdigit (slice i (i + 2) s)"
    by (auto simp: list_all_iff)
  moreover have "slice i (i + 2) s \<noteq> []"
    using assms(2) by (auto simp: slice_def)
  ultimately show ?thesis by (simp add: py_int16_def)
qed

lemma mask_of_total:
  assumes "1 \<le> num_ip"
  shows "\<exists>mask. mask_of num_ip = Inr mask"
proof -
  define m where "m = 0xffffffff XOR (num_ip - 1)"
  define z where "z = zfill 8 (drop 2 (py_hex m))"
  have m0: "0 \<le> m" unfolding m_def using assms by simp
  then have "drop 2 (py_hex m) = hex_digits m" by (rule py_hex_nonneg)
  with hex_digits_all[OF m0] have z: "list_all is_hexdigit z" "8 \<le> length z"
    unfolding z_def using zfill_hexdigits by auto
  obtain v0 where v0: "py_int16 (slice 0 (0 + 2) z) = Inr v0"
    using py_int16_slice[OF z(1), of 0] z(2) by auto
  obtain v2 where v2: "py_int16 (slice 2 (2 + 2) z) = Inr v2"
    using py_int16_slice[OF z(1), of 2] z(2) by auto
  obtain v4 where v4: "py_int16 (slice 4 (4 + 2) z) = Inr v4"
    using py_int16_slice[OF z(1), of 4] z(2) by auto
  obtain v6 where v6: "py_int16 (slice 6 (6 + 2) z) = Inr v6"
    using py_int16_slice[OF z(1), of 6] z(2) by auto
  have "mask_of num_ip = Inr (dotted [v0, v2, v4, v6])"
    by (simp only: mask_of_def Let_def m_def[symmetric] z_def[symmetric] list.map
        sum_mapM.simps v0 v2 v4 v6 sum_bind_def sum.case)
  then show ?thesis by blast
qed

lemma py_int_digits:
  assumes "cnt \<noteq> []" "list_all is_digit cnt" "length cnt \<le> int_max_str_digits"
  shows "\<exists>n. py_int cnt = Inr n \<and> 0 \<le> n"
proof -
  have d: "\<And>c. is_digit c \<Longrightarrow> 0 \<le> digit_val c"
    by (auto simp: is_digit_def digit_val_def)
  have "list_all is_digit xs \<Longrightarrow> 0 \<le> acc \<Longrightarrow> 0 \<le> foldl (\<lambda>acc c. 10 * acc + digit_val c) acc xs"
    for xs acc
  proof (induction xs arbitrary: acc)
    case Nil
    then show ?case by simp
  next
    case (Cons x xs)
    from Cons.prems have "0 \<le> 10 * acc + digit_val x" using d[of x] by simp
    with Cons show ?case by simp
  qed
  with assms show ?thesis by (simp add: py_int_def)
qed

lemma convert_item_fields:
  assumes "py_split CHR ''|'' item = x0 # x1 # x2 # ip # cnt # dt # rest"
    and "py_int cnt = Inr n" and "mask_of n = Inr msk" and "0 < n"
  shows "convert_item big_log item
    = Inr (ip, msk, 32 - (if n \<le> 2 ^ 32 then ilog2 n else big_log n))"
  using assms(2,3,4)
  by (simp add: convert_item_def assms(1) py_index_def sum_bind_def py_log2_trunc_def)

lemma sum_mapM_member:
  "sum_mapM f xs = Inr ys \<Longrightarrow> x \<in> set xs \<Longrightarrow> f x = Inr y \<Longrightarrow> y \<in> set ys"
proof (induction xs arbitrary: ys)
  case Nil
  then show ?case by simp
next
  case (Cons a xs)
  from Cons.prems(1) obtain b bs where
    b: "f a = Inr b" "sum_mapM f xs = Inr bs" "ys = b # bs"
    by (auto simp: sum_bind_def split: sum.splits)
  show ?case
  proof (cases "x = a")
    case True
    with b Cons.prems(3) show ?thesis by simp
  next
    case False
    with Cons.prems(2) have "x \<in> set xs" by simp
    from Cons.IH[OF b(2) this Cons.prems(3)] b(3) show ?thesis by simp
  qed
qed

lemma findall_item_fields:
  assumes "item \<in> set (findall data)"
  obtains x0 x1 x2 ip cnt dt rest where
    "py_split CHR ''|'' item = x0 # x1 # x2 # ip # cnt # dt # rest"
    "rest \<noteq> []" "cnt \<noteq> []" "list_all is_digit cnt" "newline \<notin> set item"
proof -
  from findall_member[OF assms] obtain s r where
    m: "cnregex_match s = Some r" and i: "item = take (length s - length r) s" by blast
  from m obtain x0 x1 x2 ip cnt dt rest where
    f: "py_split CHR ''|'' (take (length s - length r) s) = x0 # x1 # x2 # ip # cnt # dt # rest"
    and g: "rest \<noteq> []" "cnt \<noteq> []" "list_all is_digit cnt"
    and h: "newline \<notin> set (take (length s - length r) s)"
    by (rule cnregex_match_fields)
  show ?thesis
    by (rule that[OF f[folded i] g h[folded i]])
qed



section \<open>Matches and lines\<close>

lemma line_local_bind:
  assumes "line_local f" "line_local g"
  shows "line_local (\<lambda>s. Option.bind (f s) g)"
  unfolding line_local_def
proof (intro allI)
  fix a b
  show "Option.bind (f (a @ newline # b)) g
      = map_option (\<lambda>r. r @ newline # b) (Option.bind (f a) g)"
  proof (cases "f a")
    case None
    with assms(1) show ?thesis by (simp add: line_local_def)
  next
    case (Some r)
    with assms show ?thesis by (simp add: line_local_def)
  qed
qed

lemma while_append_newline:
  assumes "\<not> P newline"
  shows "takeWhile P (a @ newline # b) = takeWhile P a"
    and "dropWhile P (a @ newline # b) = dropWhile P a @ newline # b"
  using assms by (induction a) simp_all

lemma line_local_many1: "\<not> P newline \<Longrightarrow> line_local (many1 P)"
  by (simp add: line_local_def many1_def while_append_newline)

lemma line_local_dot_star: "line_local dot_star"
  by (simp add: line_local_def dot_star_def while_append_newline)

lemma lit_ci_append_newline:
  "\<forall>q\<in>set p. py_lower_char q \<noteq> newline \<Longrightarrow>
   lit_ci p (a @ newline # b) = map_option (\<lambda>r. r @ newline # b) (lit_ci p a)"
  by (induction p a rule: lit_ci.induct) (auto simp: py_lower_char_newline)

lemma line_local_lit_ci:
  "\<forall>q\<in>set p. py_lower_char q \<noteq> newline \<Longrightarrow> line_local (lit_ci p)"
  by (simp add: line_local_def lit_ci_append_newline)

lemma pattern_no_newline:
  "\<forall>q\<in>set ''apnic|cn|ipv4|''. py_lower_char q \<noteq> newline"
  "\<forall>q\<in>set ''|''. py_lower_char q \<noteq> newline"
  "\<forall>q\<in>set ''|a''. py_lower_char q \<noteq> newline"
  by code_simp+

lemma class_no_newline: "\<not> is_digit newline" "\<not> is_ip_char newline"
  by code_simp+

lemma line_local_cnregex_match: "line_local cnregex_match"
proof -
  have "line_local (\<lambda>s. Option.bind (lit_ci ''apnic|cn|ipv4|'' s) (\<lambda>s1.
     Option.bind (many1 is_ip_char s1) (\<lambda>s2.
     Option.bind (lit_ci ''|'' s2) (\<lambda>s3.
     Option.bind (many1 is_digit s3) (\<lambda>s4.
     Option.bind (lit_ci ''|'' s4) (\<lambda>s5.
     Option.bind (many1 is_digit s5) (\<lambda>s6.
     Option.bind (lit_ci ''|a'' s6) dot_star)))))))"
    by (intro line_local_bind line_local_lit_ci line_local_many1 line_local_dot_star
        pattern_no_newline class_no_newline)
  moreover have "cnregex_match = (\<lambda>s. Option.bind (lit_ci ''apnic|cn|ipv4|'' s) (\<lambda>s1.
     Option.bind (many1 is_ip_char s1) (\<lambda>s2.
     Option.bind (lit_ci ''|'' s2) (\<lambda>s3.
     Option.bind (many1 is_digit s3) (\<lambda>s4.
     Option.bind (lit_ci ''|'' s4) (\<lambda>s5.
     Option.bind (many1 is_digit s5) (\<lambda>s6.
     Option.bind (lit_ci ''|a'' s6) dot_star)))))))"
    by (rule ext) (rule cnregex_match_def)
  ultimately show ?thesis by (simp only:)
qed

lemma cnregex_match_append_newline:
  "cnregex_match (a @ newline # b) = map_option (\<lambda>r. r @ newline # b) (cnregex_match a)"
  using line_local_cnregex_match unfolding line_local_def by blast

lemma cnregex_match_Nil: "cnregex_match [] = None"
  by (simp add: cnregex_match_def)

lemma cnregex_match_newline: "cnregex_match (newline # b) = None"
  using cnregex_match_append_newline[of "[]" b] by (simp add: cnregex_match_Nil)

lemma findall_append_newline: "findall (a @ newline # b) = findall a @ findall b"
proof (induction a rule: findall.induct)
  case 1
  show ?case by (simp add: cnregex_match_newline)
next
  case (2 c cs)
  show ?case
  proof (cases "cnregex_match (c # cs)")
    case None
    then have "cnregex_match ((c # cs) @ newline # b) = None"
      by (simp only: cnregex_match_append_newline option.map)
    with None 2(1) show ?thesis by simp
  next
    case (Some r)
    then have m: "cnregex_match (c # (cs @ newline # b)) = Some (r @ newline # b)"
      using cnregex_match_append_newline[of "c # cs" b] by (simp only: append_Cons option.map)
    have ta: "take (length xs - k) (xs @ ys) = take (length xs - k) xs" for xs ys :: string and k
      by simp
    have le: "length (c # (cs @ newline # b)) - length (r @ newline # b) = length (c # cs) - length r"
      by simp
    have t: "take (length (c # cs) - length r) (c # (cs @ newline # b))
        = take (length (c # cs) - length r) (c # cs)"
      using ta[of "c # cs" "length r" "newline # b"] by (simp only: append_Cons)
    have "findall ((c # cs) @ newline # b) = findall (c # (cs @ newline # b))"
      by (simp only: append_Cons)
    also have "\<dots> = take (length (c # cs) - length r) (c # cs) # findall (r @ newline # b)"
      by (simp only: findall.simps(2) m option.case le t)
    also have "findall (r @ newline # b) = findall r @ findall b" using 2(2)[OF Some] .
    finally have "findall ((c # cs) @ newline # b)
        = (take (length (c # cs) - length r) (c # cs) # findall r) @ findall b"
      by (simp only: append_Cons)
    moreover have "findall (c # cs) = take (length (c # cs) - length r) (c # cs) # findall r"
      by (simp only: findall.simps(2) Some option.case)
    ultimately show ?thesis by (simp only:)
  qed
qed

lemma count_list_append: "count_list (xs @ ys) x = count_list xs x + count_list ys x"
  by (induction xs) simp_all

lemma cnregex_match_pipes:
  assumes "cnregex_match s = Some r"
  shows "6 \<le> count_list s CHR ''|''"
proof -
  from assms obtain x0 x1 x2 ip cnt dt rest where
    f: "py_split CHR ''|'' (take (length s - length r) s) = x0 # x1 # x2 # ip # cnt # dt # rest"
    and g: "rest \<noteq> []"
    and h: "s = take (length s - length r) s @ r"
    by (rule cnregex_match_fields)
  define item where "item = take (length s - length r) s"
  have "7 \<le> length (py_split CHR ''|'' item)"
    unfolding item_def f using g by (cases rest) simp_all
  then have "6 \<le> count_list item CHR ''|''" by (simp add: py_split_length)
  moreover have "count_list s CHR ''|'' = count_list item CHR ''|'' + count_list r CHR ''|''"
    using h count_list_append[of item r "CHR ''|''"] unfolding item_def by simp
  ultimately show ?thesis by simp
qed

lemma findall_few_pipes: "count_list s CHR ''|'' < 6 \<Longrightarrow> findall s = []"
proof (induction s rule: findall.induct)
  case 1
  show ?case by simp
next
  case (2 c cs)
  have n: "cnregex_match (c # cs) = None"
  proof (cases "cnregex_match (c # cs)")
    case None
    then show ?thesis .
  next
    case (Some r)
    from cnregex_match_pipes[OF this] 2(3) show ?thesis by simp
  qed
  have "count_list cs CHR ''|'' < 6" using 2(3) by (simp split: if_splits)
  from 2(1)[OF n this] n show ?case by simp
qed

lemma findall_line: "newline \<notin> set l \<Longrightarrow> length (findall l) \<le> 1"
proof (induction l rule: findall.induct)
  case 1
  show ?case by simp
next
  case (2 c cs)
  show ?case
  proof (cases "cnregex_match (c # cs)")
    case None
    with 2(1)[OF None] 2(3) show ?thesis by simp
  next
    case (Some r)
    from Some obtain x0 x1 x2 ip cnt dt rest where
      h: "c # cs = take (length (c # cs) - length r) (c # cs) @ r"
      and e: "r = [] \<or> hd r = newline"
      by (rule cnregex_match_fields)
    have "set r \<subseteq> set (c # cs)" using h by (metis set_append sup_ge2)
    with 2(3) have "newline \<notin> set r" by blast
    with e have "r = []" by (cases r) auto
    with Some show ?thesis by simp
  qed
qed

lemma lines_cases:
  obtains (single) "newline \<notin> set data" "py_split newline data = [data]"
  | (more) l rest where "data = l @ newline # rest" "newline \<notin> set l"
      "py_split newline data = l # py_split newline rest"
proof (cases "newline \<in> set data")
  case False
  then show ?thesis using py_split_no_sep[of newline data] single by blast
next
  case True
  then obtain l rest where d: "data = l @ newline # rest" "newline \<notin> set l"
    by (meson split_list_first)
  then have "py_split newline data = l # py_split newline rest"
    by (simp add: py_split_append)
  with d show ?thesis using more by blast
qed

lemma lines_no_newline: "l \<in> set (py_split newline data) \<Longrightarrow> newline \<notin> set l"
proof (induction data arbitrary: l rule: length_induct)
  case (1 data)
  show ?case
  proof (cases data rule: lines_cases)
    case single
    with 1(2) show ?thesis by simp
  next
    case (more l0 rest)
    have "length rest < length data" unfolding more(1) by simp
    with 1(1) have "\<And>l. l \<in> set (py_split newline rest) \<Longrightarrow> newline \<notin> set l" by blast
    with 1(2) more show ?thesis by auto
  qed
qed

lemma findall_lines: "findall data = concat (map findall (py_split newline data))"
proof (induction data rule: length_induct)
  case (1 data)
  show ?case
  proof (cases data rule: lines_cases)
    case single
    then show ?thesis by simp
  next
    case (more l rest)
    have "length rest < length data" unfolding more(1) by simp
    with 1 have "findall rest = concat (map findall (py_split newline rest))" by blast
    then show ?thesis
      unfolding more(3) unfolding more(1) by (simp add: findall_append_newline)
  qed
qed

lemma concat_singletons:
  "\<forall>l\<in>set ls. length (f l) \<le> 1 \<Longrightarrow>
   concat (map f ls) = map (\<lambda>l. hd (f l)) (filter (\<lambda>l. f l \<noteq> []) ls)"
proof (induction ls)
  case Nil
  show ?case by simp
next
  case (Cons a ls)
  then have "length (f a) \<le> 1" by simp
  then have "f a = [] \<or> f a = [hd (f a)]"
    by (cases "f a") auto
  with Cons show ?case by auto
qed

lemma findall_matching_lines:
  "findall data = map (\<lambda>l. hd (findall l)) (filter line_matches (py_split newline data))"
proof -
  have "\<forall>l\<in>set (py_split newline data). length (findall l) \<le> 1"
    using lines_no_newline findall_line by blast
  from concat_singletons[of "py_split newline data" findall, OF this]
  show ?thesis unfolding line_matches_def findall_lines[of data] .
qed

lemma sum_mapM_all:
  "\<forall>x\<in>set xs. \<exists>y. f x = Inr y \<Longrightarrow>
   \<exists>ys. sum_mapM f xs = Inr ys \<and> list_all2 (\<lambda>x y. f x = Inr y) xs ys"
proof (induction xs)
  case Nil
  show ?case by simp
next
  case (Cons a xs)
  then obtain b bs where "f a = Inr b" "sum_mapM f xs = Inr bs"
      "list_all2 (\<lambda>x y. f x = Inr y) xs bs"
    by auto
  then show ?case by (simp add: sum_bind_def)
qed

lemma convert_item_total:
  assumes "item \<in> set (findall data)"
    and "length (py_split CHR ''|'' item ! 4) \<le> int_max_str_digits"
    and "py_int (py_split CHR ''|'' item ! 4) \<noteq> Inr 0"
  shows "\<exists>r. convert_item big_log item = Inr r \<and> fst r = py_split CHR ''|'' item ! 3"
proof -
  from assms(1) obtain x0 x1 x2 ip cnt dt rest where
    f: "py_split CHR ''|'' item = x0 # x1 # x2 # ip # cnt # dt # rest"
    and d: "cnt \<noteq> []" "list_all is_digit cnt"
    by (rule findall_item_fields)
  have i3: "py_split CHR ''|'' item ! 3 = ip" and i4: "py_split CHR ''|'' item ! 4 = cnt"
    unfolding f by simp_all
  have l: "length cnt \<le> int_max_str_digits" using assms(2) unfolding i4 .
  from py_int_digits[OF d l] obtain n where n: "py_int cnt = Inr n" "0 \<le> n" by blast
  with assms(3) have "n \<noteq> 0" unfolding i4 by simp
  with n(2) have p: "1 \<le> n" "0 < n" by simp_all
  from mask_of_total[OF p(1)] obtain msk where mk: "mask_of n = Inr msk" by blast
  from convert_item_fields[OF f n(1) mk p(2)] show ?thesis unfolding i3 by simp
qed

lemma findall_join_lines: "findall (join_lines ls) = concat (map findall ls)"
  by (induction ls rule: join_lines.induct) (simp_all add: findall_append_newline)

section \<open>Properties of the range extractor\<close>

text \<open>
  C10. The extractor is not total on the lines the filter admits. The line below is
  matched by the filter (its host count \<open>0\<close> is a digit string), and on it the loop
  raises ValueError: \<open>0xffffffff ^ (0 - 1)\<close> is negative, its \<open>hex\<close> is
  \<open>-0x100000000\<close>, the first pair of characters after the cut is \<open>x1\<close>, and
  \<open>int('x1', 16)\<close> fails. No route list is returned.
\<close>

theorem zero_host_count_raises:
  "findall ''apnic|CN|ipv4|1.0.0.0|0|20110414|allocated''
     = [''apnic|CN|ipv4|1.0.0.0|0|20110414|allocated'']
   \<and> py_int (py_split CHR ''|'' ''apnic|CN|ipv4|1.0.0.0|0|20110414|allocated'' ! 4) = Inr 0
   \<and> (0xffffffff XOR (0 - 1) :: int) < 0
   \<and> py_hex (0xffffffff XOR (0 - 1)) = ''-0x100000000''
   \<and> slice 0 2 (zfill 8 (drop 2 (py_hex (0xffffffff XOR (0 - 1))))) = ''x1''
   \<and> py_int16 ''x1'' = Inl ValueError
   \<and> fetch_ip_data_parse big_log ''apnic|CN|ipv4|1.0.0.0|0|20110414|allocated'' = Inl ValueError"
  by code_simp

text \<open>
  C1. For every record matched by the filter whose host count is \<open>2 ^ k\<close> with
  \<open>k \<le> 32\<close>, the loop body returns the route made of the start address, the dotted
  mask and the prefix length \<open>32 - k\<close>. The dotted mask is the four octets of
  \<open>0xffffffff XOR (2 ^ k - 1)\<close>, most significant first, printed in base 10 between
  dots; read back as four big-endian octets it is that number. Whenever the parsing stage
  returns a list, the route is in it.
\<close>

theorem power_of_two_route:
  assumes "item \<in> set (findall data)"
    and "py_int (py_split CHR ''|'' item ! 4) = Inr (2 ^ k)"
    and "k \<le> 32"
  shows "convert_item big_log item
           = Inr (py_split CHR ''|'' item ! 3, dotted (octets (0xffffffff XOR (2 ^ k - 1))),
                  32 - int k)
         \<and> decode_dotted (dotted (octets (0xffffffff XOR (2 ^ k - 1))))
             = Inr (0xffffffff XOR (2 ^ k - 1))
         \<and> (\<forall>rs. fetch_ip_data_parse big_log data = Inr rs
               \<longrightarrow> (py_split CHR ''|'' item ! 3,
                    dotted (octets (0xffffffff XOR (2 ^ k - 1))), 32 - int k) \<in> set rs)"
proof -
  from assms(1) obtain x0 x1 x2 ip cnt dt rest where
    f: "py_split CHR ''|'' item = x0 # x1 # x2 # ip # cnt # dt # rest"
    by (rule findall_item_fields)
  have i3: "py_split CHR ''|'' item ! 3 = ip" and i4: "py_split CHR ''|'' item ! 4 = cnt"
    unfolding f by simp_all
  have c: "py_int cnt = Inr (2 ^ k)" using assms(2) unfolding i4 .
  have p1: "(1::int) \<le> 2 ^ k" by simp
  have p2: "(2::int) ^ k \<le> 2 ^ 32" using assms(3) by (rule power_increasing) simp
  define m :: int where "m = 0xffffffff XOR (2 ^ k - 1)"
  have r: "0 \<le> m" "m < 2 ^ 32"
    unfolding m_def using imask_range[OF p1 p2] by blast+
  have mk: "mask_of (2 ^ k) = Inr (dotted (octets m))"
    unfolding m_def using r[unfolded m_def] by (rule mask_of_in_range)
  have "(0::int) < 2 ^ k" by simp
  from convert_item_fields[OF f c mk this, of big_log]
  have ci: "convert_item big_log item = Inr (ip, dotted (octets m), 32 - int k)"
    using p2 by (simp only: ilog2_power if_True)
  have dd: "decode_dotted (dotted (octets m)) = Inr m"
    using r by (rule decode_dotted_octets)
  have mem: "\<forall>rs. fetch_ip_data_parse big_log data = Inr rs
      \<longrightarrow> (ip, dotted (octets m), 32 - int k) \<in> set rs"
    unfolding fetch_ip_data_parse_def
    using sum_mapM_member[of "convert_item big_log" "findall data" _ item, OF _ assms(1) ci]
    by blast
  show ?thesis
    unfolding i3 m_def[symmetric] using ci dd mem by blast
qed

text \<open>
  The instance \<open>k = 10\<close>: host count 1024 gives the mask integer \<open>0xFFFFFC00\<close>, the
  dotted mask \<open>255.255.252.0\<close> and the prefix length 22.
\<close>

theorem power_of_two_route_witness:
  "''apnic|CN|ipv4|1.0.4.0|1024|20110414|allocated''
      \<in> set (findall ''apnic|CN|ipv4|1.0.4.0|1024|20110414|allocated'')
   \<and> py_int (py_split CHR ''|'' ''apnic|CN|ipv4|1.0.4.0|1024|20110414|allocated'' ! 4) = Inr (2 ^ 10)
   \<and> (10::nat) \<le> 32
   \<and> convert_item ilog2 ''apnic|CN|ipv4|1.0.4.0|1024|20110414|allocated''
        = Inr (''1.0.4.0'', ''255.255.252.0'', 22)
   \<and> dotted (octets (0xffffffff XOR (2 ^ 10 - 1))) = ''255.255.252.0''
   \<and> decode_dotted ''255.255.252.0'' = Inr (0xffffffff XOR (2 ^ 10 - 1))
   \<and> (0xffffffff XOR (2 ^ 10 - 1) :: int) = 0xFFFFFC00
   \<and> fetch_ip_data_parse ilog2 ''apnic|CN|ipv4|1.0.4.0|1024|20110414|allocated''
        = Inr [(''1.0.4.0'', ''255.255.252.0'', 22)]"
proof -
  have h1: "''apnic|CN|ipv4|1.0.4.0|1024|20110414|allocated''
      \<in> set (findall ''apnic|CN|ipv4|1.0.4.0|1024|20110414|allocated'')"
    by code_simp
  have h2: "py_int (py_split CHR ''|'' ''apnic|CN|ipv4|1.0.4.0|1024|20110414|allocated'' ! 4)
      = Inr (2 ^ 10)"
    by code_simp
  have h3: "(10::nat) \<le> 32" by simp
  have i3: "py_split CHR ''|'' ''apnic|CN|ipv4|1.0.4.0|1024|20110414|allocated'' ! 3 = ''1.0.4.0''"
    by code_simp
  have d: "dotted (octets (0xffffffff XOR (2 ^ 10 - 1))) = ''255.255.252.0''"
    by code_simp
  have x: "(0xffffffff XOR (2 ^ 10 - 1) :: int) = 0xFFFFFC00" by code_simp
  have p: "fetch_ip_data_parse ilog2 ''apnic|CN|ipv4|1.0.4.0|1024|20110414|allocated''
        = Inr [(''1.0.4.0'', ''255.255.252.0'', 22)]"
    by code_simp
  from power_of_two_route[OF h1 h2 h3, of ilog2]
  have "convert_item ilog2 ''apnic|CN|ipv4|1.0.4.0|1024|20110414|allocated''
        = Inr (''1.0.4.0'', ''255.255.252.0'', 22)
      \<and> decode_dotted ''255.255.252.0'' = Inr (0xffffffff XOR (2 ^ 10 - 1))"
    unfolding i3 d by simp
  with h1 h2 h3 d x p show ?thesis by blast
qed



text \<open>
  C2, as the code has it. A line with fewer than seven fields between \<open>|\<close> is never
  matched by the filter, whatever it starts with and wherever it stands in the text
  (first, last, only or inner line): the parsing stage gives the same result as on the
  text made of the other lines. It reports no error for it.
\<close>

theorem short_line_is_skipped:
  assumes "py_split newline data = before @ l # after"
    and "length (py_split CHR ''|'' l) < 7"
  shows "findall l = []
    \<and> fetch_ip_data_parse big_log data = fetch_ip_data_parse big_log (join_lines (before @ after))"
proof -
  have "count_list l CHR ''|'' < 6" using assms(2) by (simp add: py_split_length)
  then have e: "findall l = []" by (rule findall_few_pipes)
  have "findall data = concat (map findall (before @ l # after))"
    using findall_lines[of data] unfolding assms(1) .
  also have "\<dots> = concat (map findall (before @ after))" using e by simp
  also have "\<dots> = findall (join_lines (before @ after))"
    by (rule findall_join_lines[symmetric])
  finally have "findall data = findall (join_lines (before @ after))" .
  with e show ?thesis by (simp only: fetch_ip_data_parse_def simp_thms)
qed

text \<open>
  A short line as the first line of a text and as its last line.
\<close>

theorem short_line_is_skipped_witness:
  "py_split newline (''apnic|CN|ipv4|1.0.2.0|512'' @ newline #
        ''apnic|CN|ipv4|1.0.8.0|2048|20110414|allocated'')
      = [] @ ''apnic|CN|ipv4|1.0.2.0|512'' # [''apnic|CN|ipv4|1.0.8.0|2048|20110414|allocated'']
   \<and> py_split newline (''apnic|CN|ipv4|1.0.1.0|256|20110414|allocated'' @ newline #
        ''apnic|CN|ipv4|1.0.2.0|512'')
      = [''apnic|CN|ipv4|1.0.1.0|256|20110414|allocated''] @ ''apnic|CN|ipv4|1.0.2.0|512'' # []
   \<and> length (py_split CHR ''|'' ''apnic|CN|ipv4|1.0.2.0|512'') < 7
   \<and> fetch_ip_data_parse ilog2 (''apnic|CN|ipv4|1.0.2.0|512'' @ newline #
        ''apnic|CN|ipv4|1.0.8.0|2048|20110414|allocated'')
      = fetch_ip_data_parse ilog2 (join_lines ([] @ [''apnic|CN|ipv4|1.0.8.0|2048|20110414|allocated'']))
   \<and> fetch_ip_data_parse ilog2 (''apnic|CN|ipv4|1.0.1.0|256|20110414|allocated'' @ newline #
        ''apnic|CN|ipv4|1.0.2.0|512'')
      = fetch_ip_data_parse ilog2 (join_lines ([''apnic|CN|ipv4|1.0.1.0|256|20110414|allocated''] @ []))
   \<and> fetch_ip_data_parse ilog2 (join_lines ([] @ [''apnic|CN|ipv4|1.0.8.0|2048|20110414|allocated'']))
      = Inr [(''1.0.8.0'', ''255.255.248.0'', 21)]
   \<and> fetch_ip_data_parse ilog2 (join_lines ([''apnic|CN|ipv4|1.0.1.0|256|20110414|allocated''] @ []))
      = Inr [(''1.0.1.0'', ''255.255.255.0'', 24)]"
proof -
  have s1: "py_split newline (''apnic|CN|ipv4|1.0.2.0|512'' @ newline #
        ''apnic|CN|ipv4|1.0.8.0|2048|20110414|allocated'')
      = [] @ ''apnic|CN|ipv4|1.0.2.0|512'' # [''apnic|CN|ipv4|1.0.8.0|2048|20110414|allocated'']"
    by code_simp
  have s2: "py_split newline (''apnic|CN|ipv4|1.0.1.0|256|20110414|allocated'' @ newline #
        ''apnic|CN|ipv4|1.0.2.0|512'')
      = [''apnic|CN|ipv4|1.0.1.0|256|20110414|allocated''] @ ''apnic|CN|ipv4|1.0.2.0|512'' # []"
    by code_simp
  have h: "length (py_split CHR ''|'' ''apnic|CN|ipv4|1.0.2.0|512'') < 7" by code_simp
  have p1: "fetch_ip_data_parse ilog2 (join_lines ([] @ [''apnic|CN|ipv4|1.0.8.0|2048|20110414|allocated'']))
      = Inr [(''1.0.8.0'', ''255.255.248.0'', 21)]"
    by code_simp
  have p2: "fetch_ip_data_parse ilog2 (join_lines ([''apnic|CN|ipv4|1.0.1.0|256|20110414|allocated''] @ []))
      = Inr [(''1.0.1.0'', ''255.255.255.0'', 24)]"
    by code_simp
  from short_line_is_skipped[OF s1 h, of ilog2] short_line_is_skipped[OF s2 h, of ilog2]
    s1 s2 h p1 p2
  show ?thesis by blast
qed

text \<open>
  The claim as stated fails: a line that starts with the registry, the country code and
  \<open>ipv4\<close> but has five fields is dropped without an error, and the route list that
  comes back holds only the other line.
\<close>

theorem short_line_counterexample:
  "length (py_split CHR ''|'' ''apnic|CN|ipv4|1.0.4.0|1024'') = 5
   \<and> lit_ci ''apnic|cn|ipv4|'' ''apnic|CN|ipv4|1.0.4.0|1024'' = Some ''1.0.4.0|1024''
   \<and> fetch_ip_data_parse ilog2 (''apnic|CN|ipv4|1.0.4.0|1024'' @ newline #
        ''apnic|CN|ipv4|1.0.8.0|2048|20110414|allocated'')
      = Inr [(''1.0.8.0'', ''255.255.248.0'', 21)]"
  by code_simp

text \<open>
  C3, as the code has it. The loop raises on a matched record whose host count is written
  with more than 4300 digits, and on one whose host count is zero. When no matched record
  is of these two kinds, the parsing stage returns a list with exactly one route for each
  line that matches the filter, in the order of the lines in the text: the \<open>i\<close>-th route
  is the conversion of the match found in the \<open>i\<close>-th matching line and carries its
  start address. Nothing is sorted, dropped as a duplicate or merged.
\<close>

lemma long_count_raises:
  assumes "py_split CHR ''|'' item = x0 # x1 # x2 # ip # cnt # dt # rest"
    and "int_max_str_digits < length cnt"
  shows "convert_item big_log item = Inl ValueError"
  using assms(2) by (simp add: convert_item_def assms(1) py_index_def sum_bind_def py_int_def)

theorem routes_in_document_order:
  assumes "\<forall>item\<in>set (findall data).
              length (py_split CHR ''|'' item ! 4) \<le> int_max_str_digits
              \<and> py_int (py_split CHR ''|'' item ! 4) \<noteq> Inr 0"
  shows "\<exists>rs. fetch_ip_data_parse big_log data = Inr rs
           \<and> length rs = length (filter line_matches (py_split newline data))
           \<and> list_all2 (\<lambda>l r. convert_item big_log (hd (findall l)) = Inr r
                               \<and> fst r = py_split CHR ''|'' (hd (findall l)) ! 3)
                 (filter line_matches (py_split newline data)) rs"
proof -
  define P where "P = (\<lambda>item r. convert_item big_log item = Inr r
      \<and> fst r = py_split CHR ''|'' item ! 3)"
  have t: "\<exists>r. P item r" if "item \<in> set (findall data)" for item
    unfolding P_def using that assms convert_item_total[of item data big_log] by blast
  then have "\<forall>item\<in>set (findall data). \<exists>r. convert_item big_log item = Inr r"
    unfolding P_def by blast
  from sum_mapM_all[OF this] obtain rs where
    rs: "sum_mapM (convert_item big_log) (findall data) = Inr rs"
    and l2: "list_all2 (\<lambda>x y. convert_item big_log x = Inr y) (findall data) rs"
    by blast
  have "list_all2 P (findall data) rs"
    using l2
  proof (rule list.rel_mono_strong)
    fix item r
    assume "item \<in> set (findall data)" "r \<in> set rs" "convert_item big_log item = Inr r"
    with t[of item] show "P item r"
      unfolding P_def by auto
  qed
  then have a: "list_all2 P (map (\<lambda>l. hd (findall l))
      (filter line_matches (py_split newline data))) rs"
    using findall_matching_lines[of data] by simp
  then have b: "list_all2 (\<lambda>l r. P (hd (findall l)) r)
      (filter line_matches (py_split newline data)) rs"
    by (simp add: list_all2_map1)
  from b have "length rs = length (filter line_matches (py_split newline data))"
    by (simp add: list_all2_lengthD)
  with rs b show ?thesis
    unfolding fetch_ip_data_parse_def P_def by blast
qed

text \<open>
  Five lines, four of which match; the routes come back in the order of the lines, the
  repeated range twice and the two adjacent ranges apart.
\<close>

theorem routes_in_document_order_witness:
  "map (\<lambda>item. py_int (py_split CHR ''|'' item ! 4))
      (findall (''apnic|CN|ipv4|2.0.0.0|256|20110414|allocated'' @ newline #
        ''apnic|JP|ipv4|3.0.0.0|256|20110414|allocated'' @ newline #
        ''apnic|CN|ipv4|1.0.0.0|256|20110414|allocated'' @ newline #
        ''apnic|CN|ipv4|1.0.1.0|256|20110414|assigned'' @ newline #
        ''apnic|CN|ipv4|2.0.0.0|256|20110414|allocated''))
      = [Inr 256, Inr 256, Inr 256, Inr 256]
   \<and> map (\<lambda>item. length (py_split CHR ''|'' item ! 4))
      (findall (''apnic|CN|ipv4|2.0.0.0|256|20110414|allocated'' @ newline #
        ''apnic|JP|ipv4|3.0.0.0|256|20110414|allocated'' @ newline #
        ''apnic|CN|ipv4|1.0.0.0|256|20110414|allocated'' @ newline #
        ''apnic|CN|ipv4|1.0.1.0|256|20110414|assigned'' @ newline #
        ''apnic|CN|ipv4|2.0.0.0|256|20110414|allocated''))
      = [3, 3, 3, 3]
   \<and> fetch_ip_data_parse ilog2 (''apnic|CN|ipv4|2.0.0.0|256|20110414|allocated'' @ newline #
        ''apnic|JP|ipv4|3.0.0.0|256|20110414|allocated'' @ newline #
        ''apnic|CN|ipv4|1.0.0.0|256|20110414|allocated'' @ newline #
        ''apnic|CN|ipv4|1.0.1.0|256|20110414|assigned'' @ newline #
        ''apnic|CN|ipv4|2.0.0.0|256|20110414|allocated'')
      = Inr [(''2.0.0.0'', ''255.255.255.0'', 24), (''1.0.0.0'', ''255.255.255.0'', 24),
             (''1.0.1.0'', ''255.255.255.0'', 24), (''2.0.0.0'', ''255.255.255.0'', 24)]
   \<and> length (filter line_matches (py_split newline
        (''apnic|CN|ipv4|2.0.0.0|256|20110414|allocated'' @ newline #
        ''apnic|JP|ipv4|3.0.0.0|256|20110414|allocated'' @ newline #
        ''apnic|CN|ipv4|1.0.0.0|256|20110414|allocated'' @ newline #
        ''apnic|CN|ipv4|1.0.1.0|256|20110414|assigned'' @ newline #
        ''apnic|CN|ipv4|2.0.0.0|256|20110414|allocated''))) = 4"
proof -
  define data where "data = ''apnic|CN|ipv4|2.0.0.0|256|20110414|allocated'' @ newline #
        ''apnic|JP|ipv4|3.0.0.0|256|20110414|allocated'' @ newline #
        ''apnic|CN|ipv4|1.0.0.0|256|20110414|allocated'' @ newline #
        ''apnic|CN|ipv4|1.0.1.0|256|20110414|assigned'' @ newline #
        ''apnic|CN|ipv4|2.0.0.0|256|20110414|allocated''"
  have c: "map (\<lambda>item. py_int (py_split CHR ''|'' item ! 4)) (findall data)
      = [Inr 256, Inr 256, Inr 256, Inr 256]"
    unfolding data_def by code_simp
  have n: "map (\<lambda>item. length (py_split CHR ''|'' item ! 4)) (findall data) = [3, 3, 3, 3]"
    unfolding data_def by code_simp
  have h: "\<forall>item\<in>set (findall data).
      length (py_split CHR ''|'' item ! 4) \<le> int_max_str_digits
      \<and> py_int (py_split CHR ''|'' item ! 4) \<noteq> Inr 0"
  proof
    fix item assume i: "item \<in> set (findall data)"
    then have "py_int (py_split CHR ''|'' item ! 4)
        \<in> set (map (\<lambda>item. py_int (py_split CHR ''|'' item ! 4)) (findall data))"
      by simp
    then have a: "py_int (py_split CHR ''|'' item ! 4) \<noteq> Inr 0"
      unfolding c by auto
    from i have "length (py_split CHR ''|'' item ! 4)
        \<in> set (map (\<lambda>item. length (py_split CHR ''|'' item ! 4)) (findall data))"
      by simp
    then have "length (py_split CHR ''|'' item ! 4) \<le> int_max_str_digits"
      unfolding n by (auto simp: int_max_str_digits_def)
    with a show "length (py_split CHR ''|'' item ! 4) \<le> int_max_str_digits
      \<and> py_int (py_split CHR ''|'' item ! 4) \<noteq> Inr 0" by simp
  qed
  have p: "fetch_ip_data_parse ilog2 data
      = Inr [(''2.0.0.0'', ''255.255.255.0'', 24), (''1.0.0.0'', ''255.255.255.0'', 24),
             (''1.0.1.0'', ''255.255.255.0'', 24), (''2.0.0.0'', ''255.255.255.0'', 24)]"
    unfolding data_def by code_simp
  from routes_in_document_order[OF h, of ilog2] obtain rs where
    "fetch_ip_data_parse ilog2 data = Inr rs"
    "length rs = length (filter line_matches (py_split newline data))"
    by blast
  with p have "length (filter line_matches (py_split newline data)) = 4" by simp
  with c n p show ?thesis unfolding data_def by blast
qed

text \<open>
  The claim as stated fails for a text in which a matched record has the host count zero:
  two lines match, and the parsing stage raises ValueError instead of returning two routes.
\<close>

theorem zero_count_line_counterexample:
  "length (filter line_matches (py_split newline
      (''apnic|CN|ipv4|1.0.1.0|256|20110414|allocated'' @ newline #
       ''apnic|CN|ipv4|1.0.2.0|0|20110414|allocated''))) = 2
   \<and> fetch_ip_data_parse ilog2
      (''apnic|CN|ipv4|1.0.1.0|256|20110414|allocated'' @ newline #
       ''apnic|CN|ipv4|1.0.2.0|0|20110414|allocated'') = Inl ValueError"
  by code_simp

section \<open>The progress reporter: eviction and one step of the loop\<close>

lemma evict_append_now:
  assumes "\<not> fgt_int ops (fsub ops now now) 10"
  shows "evict ops now (h @ [(now, d)]) \<noteq> [] \<and> last (evict ops now (h @ [(now, d)])) = (now, d)"
proof (induction h)
  case Nil
  with assms show ?case by simp
next
  case (Cons a h)
  obtain t0 b0 where a: "a = (t0, b0)" by (cases a)
  show ?case
  proof (cases "fgt_int ops (fsub ops now t0) 10")
    case True
    with Cons a show ?thesis by simp
  next
    case False
    with a show ?thesis by simp
  qed
qed


lemma evict_front_young:
  "evict ops now h = (t0, b0) # r \<Longrightarrow> \<not> fgt_int ops (fsub ops now t0) 10"
  by (induction h) (auto split: if_splits)

lemma speed_of_guarded:
  assumes "\<forall>d. fgt_int ops d 0 \<longrightarrow> \<not> feq_zero ops d" and "h \<noteq> []"
  shows "speed_of ops now dl h =
     Inr (if fgt_int ops (fsub ops now (fst (hd h))) 0
          then float_div_int ops (int_div_float ops (dl - snd (hd h)) (fsub ops now (fst (hd h))))
                 (1024 * 1024)
          else float_zero ops)"
proof -
  from assms(2) obtain t0 b0 r where h: "h = (t0, b0) # r" by (cases h) auto
  show ?thesis
  proof (cases "fgt_int ops (fsub ops now t0) 0")
    case True
    with assms(1) have "\<not> feq_zero ops (fsub ops now t0)" by blast
    with True show ?thesis
      by (simp add: speed_of_def front_age_positive_def h py_index_def sum_bind_def)
  next
    case False
    then show ?thesis
      by (simp add: speed_of_def front_age_positive_def h)
  qed
qed

lemma progress_of_total:
  "progress_of ops total_size dl =
     Inr (case total_size of None \<Rightarrow> PyInt 0
          | Some t \<Rightarrow> if t \<noteq> 0 then PyFloat (float_mul_int ops (int_div_int ops dl t) 100)
                     else PyInt 0)"
  by (simp add: progress_of_def py_int_truediv_def sum_bind_def split: option.splits)

lemma filled_of_total:
  "filled_of ops total_size dl =
     Inr (case total_size of None \<Rightarrow> 0
          | Some t \<Rightarrow> if t \<noteq> 0 then float_to_int ops (int_div_int ops (50 * dl) t) else 0)"
  by (simp add: filled_of_def py_int_truediv_def sum_bind_def split: option.splits)

text \<open>One step of the loop returns, and this is what it returns.\<close>

lemma on_chunk_returns:
  assumes "\<not> fgt_int ops (fsub ops now now) 10"
    and "\<forall>d. fgt_int ops d 0 \<longrightarrow> \<not> feq_zero ops d"
  shows "\<exists>st' ob. on_chunk ops total_size chunk now st = Inr (st', ob)
           \<and> downloaded st' = downloaded st + int (length chunk)
           \<and> history st' = evict ops now (history st @ [(now, downloaded st + int (length chunk))])
           \<and> chunks st' = chunks st @ [chunk]
           \<and> history st' \<noteq> []
           \<and> last (history st') = (now, downloaded st + int (length chunk))
           \<and> py_index (history st') 0 = Inr (hd (history st'))
           \<and> speed_of ops now (downloaded st') (history st') = Inr (speed_mb_s ob)
           \<and> speed_mb_s ob =
               (if fgt_int ops (fsub ops now (fst (hd (history st')))) 0
                then float_div_int ops
                       (int_div_float ops (downloaded st' - snd (hd (history st')))
                          (fsub ops now (fst (hd (history st')))))
                       (1024 * 1024)
                else float_zero ops)
           \<and> progress ob =
               (case total_size of
                  None \<Rightarrow> PyInt 0
                | Some t \<Rightarrow>
                    if t \<noteq> 0
                    then PyFloat (float_mul_int ops (int_div_int ops (downloaded st') t) 100)
                    else PyInt 0)
           \<and> filled_length ob =
               (case total_size of
                  None \<Rightarrow> 0
                | Some t \<Rightarrow>
                    if t \<noteq> 0 then float_to_int ops (int_div_int ops (50 * downloaded st') t)
                    else 0)
           \<and> bar ob = bar_of (filled_length ob)"
proof -
  define dl where "dl = downloaded st + int (length chunk)"
  define h where "h = evict ops now (history st @ [(now, dl)])"
  have ne: "h \<noteq> []" and la: "last h = (now, dl)"
    unfolding h_def using evict_append_now[OF assms(1)] by blast+
  have sp: "speed_of ops now dl h =
     Inr (if fgt_int ops (fsub ops now (fst (hd h))) 0
          then float_div_int ops (int_div_float ops (dl - snd (hd h)) (fsub ops now (fst (hd h))))
                 (1024 * 1024)
          else float_zero ops)"
    using assms(2) ne by (rule speed_of_guarded)
  have ix: "py_index h 0 = Inr (hd h)"
    using ne by (cases h) (simp_all add: py_index_def)
  show ?thesis
    unfolding on_chunk_def Let_def dl_def[symmetric] h_def[symmetric]
    by (simp add: sp progress_of_total filled_of_total sum_bind_def ne la ix
          split: option.splits)
qed




lemma real_ops_facts:
  "\<forall>x. \<not> fgt_int real_ops (fsub real_ops x x) 10"
  "\<forall>d. fgt_int real_ops d 0 \<longrightarrow> \<not> feq_zero real_ops d"
  "\<forall>now t t'. fle real_ops t t' \<longrightarrow> fgt_int real_ops (fsub real_ops now t') 10
              \<longrightarrow> fgt_int real_ops (fsub real_ops now t) 10"
  by (simp_all add: real_ops_def)

section \<open>Properties of the progress reporter\<close>

text \<open>
  The statements below are about any float arithmetic with the properties they assume.
  Each of these holds of IEEE double precision arithmetic: \<open>x - x\<close> is zero or not a
  number, and neither is greater than 10; a number greater than 0 is not equal to 0;
  subtraction rounds monotonically, so that \<open>now - t\<close> is greater than 10 when
  \<open>now - t'\<close> is and \<open>t \<le> t'\<close>; division of integers and multiplication by 100 round
  monotonically too.
\<close>

text \<open>
  C9. The eviction loop never empties the window. For every state, chunk and timestamp,
  the step of the loop returns without raising; the window after the eviction is not
  empty and its last sample is the one just appended; the read of its front element is
  in bounds; and the speed is the result of the division exactly when the age of the
  front sample is greater than 0 (then the divisor is that age, which is not zero), and
  \<open>0.0\<close> otherwise.
\<close>

theorem window_never_empty:
  assumes "\<not> fgt_int ops (fsub ops now now) 10"
    and "\<forall>d. fgt_int ops d 0 \<longrightarrow> \<not> feq_zero ops d"
  shows "\<exists>st' ob. on_chunk ops total_size chunk now st = Inr (st', ob)
           \<and> history st' = evict ops now (history st @ [(now, downloaded st + int (length chunk))])
           \<and> history st' \<noteq> []
           \<and> last (history st') = (now, downloaded st + int (length chunk))
           \<and> py_index (history st') 0 = Inr (hd (history st'))
           \<and> speed_of ops now (downloaded st') (history st') = Inr (speed_mb_s ob)
           \<and> speed_mb_s ob =
               (if fgt_int ops (fsub ops now (fst (hd (history st')))) 0
                then float_div_int ops
                       (int_div_float ops (downloaded st' - snd (hd (history st')))
                          (fsub ops now (fst (hd (history st')))))
                       (1024 * 1024)
                else float_zero ops)"
proof -
  from on_chunk_returns[OF assms, of total_size chunk st] obtain st' ob where
    "on_chunk ops total_size chunk now st = Inr (st', ob)"
    "history st' = evict ops now (history st @ [(now, downloaded st + int (length chunk))])"
    "history st' \<noteq> []"
    "last (history st') = (now, downloaded st + int (length chunk))"
    "py_index (history st') 0 = Inr (hd (history st'))"
    "speed_of ops now (downloaded st') (history st') = Inr (speed_mb_s ob)"
    "speed_mb_s ob =
               (if fgt_int ops (fsub ops now (fst (hd (history st')))) 0
                then float_div_int ops
                       (int_div_float ops (downloaded st' - snd (hd (history st')))
                          (fsub ops now (fst (hd (history st')))))
                       (1024 * 1024)
                else float_zero ops)"
    by blast
  then show ?thesis by blast
qed

theorem window_never_empty_witness:
  "map_sum id (history \<circ> fst)
      (on_chunk real_ops None ''abc'' 7
         \<lparr>downloaded = 5, history = [(- 5, 2), (1, 5)], chunks = [''ab'', ''cde'']\<rparr>)
     = Inr [(1, 5), (7, 8)]
   \<and> map_sum id (speed_mb_s \<circ> snd)
      (on_chunk real_ops None ''abc'' 7
         \<lparr>downloaded = 5, history = [(- 5, 2), (1, 5)], chunks = [''ab'', ''cde'']\<rparr>)
     = Inr (3 / 6 / 1048576)
   \<and> map_sum id (history \<circ> fst) (on_chunk real_ops None ''abc'' 0 init_state) = Inr [(0, 3)]
   \<and> map_sum id (speed_mb_s \<circ> snd) (on_chunk real_ops None ''abc'' 0 init_state) = Inr 0"
proof -
  define st :: "real pstate" where
    "st = \<lparr>downloaded = 5, history = [(- 5, 2), (1, 5)], chunks = [''ab'', ''cde'']\<rparr>"
  have n: "\<not> fgt_int real_ops (fsub real_ops x x) 10" for x :: real
    using real_ops_facts(1) by blast
  from window_never_empty[where ops = real_ops and now = 7 and total_size = None
      and chunk = "''abc''" and st = st, OF n real_ops_facts(2)] obtain st' ob where
    r: "on_chunk real_ops None ''abc'' 7 st = Inr (st', ob)"
    and h: "history st' = evict real_ops 7 (history st @ [(7, downloaded st + int (length ''abc''))])"
    and s: "speed_of real_ops 7 (downloaded st') (history st') = Inr (speed_mb_s ob)"
    by blast
  have e: "evict real_ops 7 (history st @ [(7, downloaded st + int (length ''abc''))])
      = [(1, 5), (7, 8)]"
    unfolding st_def by code_simp
  have a: "map_sum id (history \<circ> fst) (on_chunk real_ops None ''abc'' 7 st) = Inr [(1, 5), (7, 8)]"
    unfolding r using h e by simp
  have b: "map_sum id (speed_mb_s \<circ> snd) (on_chunk real_ops None ''abc'' 7 st)
      = Inr (3 / 6 / 1048576)"
    unfolding st_def by code_simp
  from window_never_empty[where ops = real_ops and now = 0 and total_size = None
      and chunk = "''abc''" and st = init_state, OF n real_ops_facts(2)]
  obtain st0 ob0 where
    r0: "on_chunk real_ops None ''abc'' 0 init_state = Inr (st0, ob0)"
    and h0: "history st0 = evict real_ops 0
        (history (init_state :: real pstate) @ [(0, downloaded (init_state :: real pstate) + int (length ''abc''))])"
    by blast
  have e0: "evict real_ops 0
        (history (init_state :: real pstate) @ [(0, downloaded (init_state :: real pstate) + int (length ''abc''))])
      = [(0, 3)]"
    by code_simp
  have c: "map_sum id (history \<circ> fst) (on_chunk real_ops None ''abc'' 0 init_state) = Inr [(0, 3)]"
    unfolding r0 using h0 e0 by simp
  have d: "map_sum id (speed_mb_s \<circ> snd) (on_chunk real_ops None ''abc'' 0 init_state) = Inr 0"
    by code_simp
  from a b c d show ?thesis unfolding st_def by blast
qed




text \<open>
  C6. After each chunk the cumulative byte count has grown by the length of the chunk.
  When the header gave a total that is not 0, the percentage is the float
  \<open>downloaded / total_size * 100\<close> and the bar is filled to
  \<open>int(50 * downloaded / total_size)\<close>; for a positive total the percentage after the
  chunk is not below the percentage of the count before it. When the header is absent
  (or the total is 0) the step still returns, the percentage is the integer \<open>0\<close>, which
  is printed as \<open>0.00%\<close> like a known percentage of zero, and the bar is empty.
\<close>

theorem percentage_reported:
  assumes "\<not> fgt_int ops (fsub ops now now) 10"
    and "\<forall>d. fgt_int ops d 0 \<longrightarrow> \<not> feq_zero ops d"
    and "\<forall>a b t. 0 < t \<longrightarrow> a \<le> b \<longrightarrow>
           fle ops (float_mul_int ops (int_div_int ops a t) 100)
                   (float_mul_int ops (int_div_int ops b t) 100)"
  shows "\<exists>st' ob. on_chunk ops total_size chunk now st = Inr (st', ob)
           \<and> downloaded st' = downloaded st + int (length chunk)
           \<and> chunks st' = chunks st @ [chunk]
           \<and> progress ob =
               (case total_size of
                  None \<Rightarrow> PyInt 0
                | Some t \<Rightarrow>
                    if t \<noteq> 0
                    then PyFloat (float_mul_int ops (int_div_int ops (downloaded st') t) 100)
                    else PyInt 0)
           \<and> filled_length ob =
               (case total_size of
                  None \<Rightarrow> 0
                | Some t \<Rightarrow>
                    if t \<noteq> 0 then float_to_int ops (int_div_int ops (50 * downloaded st') t)
                    else 0)
           \<and> bar ob = bar_of (filled_length ob)
           \<and> (\<forall>t. total_size = Some t \<and> 0 < t \<longrightarrow>
                  fle ops (float_mul_int ops (int_div_int ops (downloaded st) t) 100)
                          (float_mul_int ops (int_div_int ops (downloaded st') t) 100))"
proof -
  from on_chunk_returns[OF assms(1,2), of total_size chunk st] obtain st' ob where
    r: "on_chunk ops total_size chunk now st = Inr (st', ob)"
    and d: "downloaded st' = downloaded st + int (length chunk)"
    and c: "chunks st' = chunks st @ [chunk]"
    and p: "progress ob =
               (case total_size of
                  None \<Rightarrow> PyInt 0
                | Some t \<Rightarrow>
                    if t \<noteq> 0
                    then PyFloat (float_mul_int ops (int_div_int ops (downloaded st') t) 100)
                    else PyInt 0)"
    and f: "filled_length ob =
               (case total_size of
                  None \<Rightarrow> 0
                | Some t \<Rightarrow>
                    if t \<noteq> 0 then float_to_int ops (int_div_int ops (50 * downloaded st') t)
                    else 0)"
    and b: "bar ob = bar_of (filled_length ob)"
    by blast
  from d have le: "downloaded st \<le> downloaded st'" by simp
  have m: "\<forall>t. total_size = Some t \<and> 0 < t \<longrightarrow>
                  fle ops (float_mul_int ops (int_div_int ops (downloaded st) t) 100)
                          (float_mul_int ops (int_div_int ops (downloaded st') t) 100)"
    using assms(3) le by blast
  show ?thesis
    by (rule exI[of _ st'], rule exI[of _ ob]) (intro conjI r d c p f b m)
qed

theorem percentage_reported_witness:
  "map_sum id (progress \<circ> snd)
      (on_chunk real_ops (Some 1000) (replicate 100 CHR ''x'') 0 init_state) = Inr (PyFloat 10)
   \<and> map_sum id (map progress \<circ> snd)
      (feed real_ops (Some 1000) init_state
         [(replicate 100 CHR ''x'', 0), (replicate 200 CHR ''x'', 1), (replicate 300 CHR ''x'', 2)])
     = Inr [PyFloat 10, PyFloat 30, PyFloat 60]
   \<and> map_sum id (map filled_length \<circ> snd)
      (feed real_ops (Some 1000) init_state
         [(replicate 100 CHR ''x'', 0), (replicate 200 CHR ''x'', 1), (replicate 300 CHR ''x'', 2)])
     = Inr [5, 15, 30]"
proof -
  have n: "\<not> fgt_int real_ops (fsub real_ops 0 0) 10"
    using real_ops_facts(1) by blast
  have m: "\<forall>a b t. 0 < t \<longrightarrow> a \<le> b \<longrightarrow>
           fle real_ops (float_mul_int real_ops (int_div_int real_ops a t) 100)
                   (float_mul_int real_ops (int_div_int real_ops b t) 100)"
    by (simp add: real_ops_def divide_right_mono)
  from percentage_reported[where ops = real_ops and now = 0 and total_size = "Some 1000"
      and chunk = "replicate 100 CHR ''x''" and st = init_state, OF n real_ops_facts(2) m]
  obtain st' ob where
    r: "on_chunk real_ops (Some 1000) (replicate 100 CHR ''x'') 0 init_state = Inr (st', ob)"
    and d: "downloaded st' = downloaded (init_state :: real pstate) + int (length (replicate 100 CHR ''x''))"
    and p: "progress ob = PyFloat (float_mul_int real_ops (int_div_int real_ops (downloaded st') 1000) 100)"
    by auto
  have "downloaded st' = 100" unfolding d by (simp add: init_state_def)
  with p have "progress ob = PyFloat 10" by (simp add: real_ops_def)
  with r have a: "map_sum id (progress \<circ> snd)
      (on_chunk real_ops (Some 1000) (replicate 100 CHR ''x'') 0 init_state) = Inr (PyFloat 10)"
    by simp
  have b: "map_sum id (map progress \<circ> snd)
      (feed real_ops (Some 1000) init_state
         [(replicate 100 CHR ''x'', 0), (replicate 200 CHR ''x'', 1), (replicate 300 CHR ''x'', 2)])
     = Inr [PyFloat 10, PyFloat 30, PyFloat 60]"
    by code_simp
  have c: "map_sum id (map filled_length \<circ> snd)
      (feed real_ops (Some 1000) init_state
         [(replicate 100 CHR ''x'', 0), (replicate 200 CHR ''x'', 1), (replicate 300 CHR ''x'', 2)])
     = Inr [5, 15, 30]"
    by code_simp
  from a b c show ?thesis by blast
qed

text \<open>
  Without a header the first chunk is reported with the percentage \<open>0\<close>, a number, and
  an empty bar.
\<close>

theorem absent_length_counterexample:
  "on_chunk real_ops None ''abc'' 0 init_state
     = Inr (\<lparr>downloaded = 3, history = [(0, 3)], chunks = [''abc'']\<rparr>,
            \<lparr>progress = PyInt 0, speed_mb_s = 0, filled_length = 0,
             bar = ''--------------------------------------------------''\<rparr>)"
  by code_simp

section \<open>Properties of the platform selector\<close>

lemma supported_selector_calls:
  "main_dispatch (Some ''openvpn'') metric = Calls generate_ovpn metric"
  "main_dispatch (Some ''linux'') metric = Calls generate_linux metric"
  "main_dispatch (Some ''mac'') metric = Calls generate_mac metric"
  "main_dispatch (Some ''android'') metric = Calls generate_android metric"
  by (simp_all add: main_dispatch_def call_global_def module_global_def py_lower_def
        py_lower_char_def)

lemma other_selector_exits:
  assumes "py_lower given \<notin> {''openvpn'', ''linux'', ''mac'', ''win'', ''android''}"
  shows "main_dispatch (Some given) metric
           = Exits 1 (''Platform '' @ given @ '' is not supported.'' @ [newline])"
  using assms by (simp add: main_dispatch_def)

lemma other_selector_example:
  "main_dispatch (Some ''Windows'') (Some 5) = Exits 1 (''Platform Windows is not supported.'' @ [newline])"
  by (simp add: main_dispatch_def py_lower_def py_lower_char_def newline_def)

lemma missing_selector_raises: "main_dispatch None metric = Raises AttributeError"
  by (simp add: main_dispatch_def)

text \<open>
  C4. The selector \<open>win\<close> (in any letter case) has no generator: the branch for it
  calls \<open>generate_win\<close>, a name the module does not define, and the call raises
  NameError, which nothing catches. No message about an unsupported platform is written,
  and the program ends by the exception. Every selector that lowers to none of the five
  names of the branches ends with status 1 and the message (\<open>other_selector_exits\<close>).
\<close>

theorem win_selector_raises:
  "main_dispatch (Some ''win'') metric = Raises NameError"
  by (simp add: main_dispatch_def call_global_def module_global_def py_lower_def
        py_lower_char_def)

end
